theory Spec2Isabelle
  imports Complex_Main
begin

section \<open>Strings of the Python runtime\<close>

text \<open>
  A Python \<open>str\<close> is a sequence of Unicode code points. A code point is modelled as a
  natural number and a \<open>str\<close> as a list of them, so that \<open>length\<close> counts what
  Python's \<open>len\<close> counts. ASCII literals of the source are written with \<open>lit\<close>.
\<close>

type_synonym codepoint = nat
type_synonym str = "codepoint list"

definition lit :: "string \<Rightarrow> str" where
  "lit s = map of_char s"

definition UNDERSCORE :: codepoint where "UNDERSCORE = 95"
definition HYPHEN :: codepoint where "HYPHEN = 45"
definition PERIOD :: codepoint where "PERIOD = 46"
definition SLASH :: codepoint where "SLASH = 47"
definition BACKSLASH :: codepoint where "BACKSLASH = 92"
definition COLON :: codepoint where "COLON = 58"

text \<open>
  \<open>str.isspace\<close>, which is also what \<open>\s\<close> matches in a \<open>str\<close> pattern of \<open>re\<close>
  and what \<open>str.strip()\<close> removes: the runtime's whitespace table, written out
  (U+0009..U+000D, U+001C..U+0020, U+0085, U+00A0, U+1680, U+2000..U+200A, U+2028,
  U+2029, U+202F, U+205F, U+3000).
\<close>

definition py_isspace :: "codepoint \<Rightarrow> bool" where
  "py_isspace c \<longleftrightarrow>
     (9 \<le> c \<and> c \<le> 13) \<or> (28 \<le> c \<and> c \<le> 32) \<or> c = 133 \<or> c = 160 \<or> c = 5760 \<or>
     (8192 \<le> c \<and> c \<le> 8202) \<or> c = 8232 \<or> c = 8233 \<or> c = 8239 \<or> c = 8287 \<or> c = 12288"

definition ascii_alnum :: "codepoint \<Rightarrow> bool" where
  "ascii_alnum c \<longleftrightarrow> (48 \<le> c \<and> c \<le> 57) \<or> (65 \<le> c \<and> c \<le> 90) \<or> (97 \<le> c \<and> c \<le> 122)"

text \<open>
  \<open>\w\<close> in a \<open>str\<close> pattern: the alphanumeric code points of the Unicode database and
  the underscore. On ASCII the alphanumerics are \<open>[0-9A-Za-z]\<close>; beyond ASCII the
  database is not part of the source, and is the parameter \<open>U\<close> of the model.
\<close>

definition py_isalnum :: "(codepoint \<Rightarrow> bool) \<Rightarrow> codepoint \<Rightarrow> bool" where
  "py_isalnum U c \<longleftrightarrow> (if c < 128 then ascii_alnum c else U c)"

definition is_word :: "(codepoint \<Rightarrow> bool) \<Rightarrow> codepoint \<Rightarrow> bool" where
  "is_word U c \<longleftrightarrow> py_isalnum U c \<or> c = UNDERSCORE"

text \<open>\<open>s.strip()\<close> and \<open>s.strip(chars)\<close>: drop the characters of a class at both ends.\<close>

definition py_strip :: "(codepoint \<Rightarrow> bool) \<Rightarrow> str \<Rightarrow> str" where
  "py_strip p s = rev (dropWhile p (rev (dropWhile p s)))"

text \<open>
  \<open>re.sub(r"[cls]+", repl, s)\<close>: every maximal run of characters of the class is
  replaced by \<open>repl\<close> (leftmost match, the greedy \<open>+\<close> takes the whole run).
\<close>

function sub_runs :: "(codepoint \<Rightarrow> bool) \<Rightarrow> str \<Rightarrow> str \<Rightarrow> str" where
  "sub_runs p repl [] = []"
| "sub_runs p repl (c # cs) =
     (if p c then repl @ sub_runs p repl (dropWhile p cs) else c # sub_runs p repl cs)"
  by pat_completeness auto
termination
  by (relation "measure (\<lambda>(p, repl, s). length s)")
     (auto simp: le_imp_less_Suc length_dropWhile_le)

text \<open>
  \<open>re.sub(r"[c]{2,}", "c", s)\<close>: a run of two or more \<open>c\<close> is replaced by one \<open>c\<close>;
  a single \<open>c\<close> does not match and is copied.
\<close>

function collapse :: "codepoint \<Rightarrow> str \<Rightarrow> str" where
  "collapse c [] = []"
| "collapse c [x] = [x]"
| "collapse c (x # y # zs) =
     (if x = c \<and> y = c
      then c # collapse c (dropWhile (\<lambda>z. z = c) zs)
      else x # collapse c (y # zs))"
  by pat_completeness auto
termination
  by (relation "measure (\<lambda>(c, s). length s)")
     (auto simp: le_imp_less_Suc length_dropWhile_le less_SucI)

section \<open>sanitize_filename\<close>

definition is_separator :: "codepoint \<Rightarrow> bool" where
  "is_separator c \<longleftrightarrow> py_isspace c \<or> c = SLASH \<or> c = BACKSLASH \<or> c = COLON"

definition is_kept :: "(codepoint \<Rightarrow> bool) \<Rightarrow> codepoint \<Rightarrow> bool" where
  "is_kept U c \<longleftrightarrow> is_word U c \<or> c = HYPHEN \<or> c = PERIOD"

definition is_edge :: "codepoint \<Rightarrow> bool" where
  "is_edge c \<longleftrightarrow> c = UNDERSCORE \<or> c = HYPHEN"

definition sanitize_filename :: "(codepoint \<Rightarrow> bool) \<Rightarrow> str \<Rightarrow> str" where
  "sanitize_filename U name =
     (let name = py_strip py_isspace name;
          name = sub_runs is_separator [UNDERSCORE] name;
          name = filter (is_kept U) name;
          name = collapse UNDERSCORE name;
          name = collapse HYPHEN name;
          name = py_strip is_edge name
      in if name = [] then lit ''unnamed'' else name)"

text \<open>
  The value of \<open>name\<close> after the strip at line 569, before the fallback: the six
  rewriting steps of \<open>sanitize_filename\<close> composed.
\<close>

definition sanitize_steps :: "(codepoint \<Rightarrow> bool) \<Rightarrow> str \<Rightarrow> str" where
  "sanitize_steps U name =
     py_strip is_edge (collapse HYPHEN (collapse UNDERSCORE (filter (is_kept U)
       (sub_runs is_separator [UNDERSCORE] (py_strip py_isspace name)))))"

text \<open>The character class \<open>[A-Za-z0-9_.-]\<close>.\<close>

definition ascii_allowed :: "codepoint \<Rightarrow> bool" where
  "ascii_allowed c \<longleftrightarrow> ascii_alnum c \<or> c = UNDERSCORE \<or> c = PERIOD \<or> c = HYPHEN"

text \<open>
  The alphanumeric code points of the Latin-1 Supplement block (U+0080..U+00FF) in the
  Unicode database: the letters, the ordinal indicators, the micro sign, the superscript
  digits and the vulgar fractions. It is the part of the database used where a concrete
  table is needed.
\<close>

definition latin1_alnum :: "codepoint \<Rightarrow> bool" where
  "latin1_alnum c \<longleftrightarrow> c = 170 \<or> c = 178 \<or> c = 179 \<or> c = 181 \<or> c = 185 \<or> c = 186 \<or>
     (188 \<le> c \<and> c \<le> 190) \<or> (192 \<le> c \<and> c \<le> 214) \<or> (216 \<le> c \<and> c \<le> 246) \<or>
     (248 \<le> c \<and> c \<le> 255)"

text \<open>No two adjacent occurrences of \<open>c\<close>: what a collapsing step establishes.\<close>

fun no_run :: "codepoint \<Rightarrow> str \<Rightarrow> bool" where
  "no_run c (x # y # zs) = (\<not> (x = c \<and> y = c) \<and> no_run c (y # zs))"
| "no_run c _ = True"

section \<open>calculate_bounding_box\<close>

text \<open>
  Python's floats are read as real numbers: \<open>math.cos\<close> is the cosine, \<open>math.radians\<close>
  and \<open>math.degrees\<close> multiply by \<open>\<pi>/180\<close> and \<open>180/\<pi>\<close>, and the arithmetic is exact.
  Rounding, overflow and NaN are outside the model. A float division raises
  \<open>ZeroDivisionError\<close> on a zero divisor; the divisions by the literals \<open>2.0\<close> and
  \<open>6371.0\<close> cannot, the two by a computed divisor are written with \<open>truediv\<close>.
\<close>

datatype py_error = ZeroDivisionError | OSError

definition radians :: "real \<Rightarrow> real" where
  "radians x = x * (pi / 180)"

definition degrees :: "real \<Rightarrow> real" where
  "degrees x = x * (180 / pi)"

definition truediv :: "real \<Rightarrow> real \<Rightarrow> py_error + real" where
  "truediv a b = (if b = 0 then Inl ZeroDivisionError else Inr (a / b))"

text \<open>The lines the program prints, with the values they are formatted from.\<close>

datatype line =
    Starting
  | Processing_category str str
  | Processing_location nat nat nat nat str real real
  | Already_exists str
  | Pole_warning real real
  | Querying real real real real
  | Saving str
  | Success
  | Error_timeout nat
  | Error_http nat
  | Response_body
  | Hint_increase_delay
  | Hint_server_error
  | Error_request
  | Error_unexpected
  | Waiting nat
  | Summary_header
  | Total_attempted nat
  | Succeeded nat
  | Failed_downloads nat
  | Data_saved_under str
  | Finished

type_synonym bbox = "real \<times> real \<times> real \<times> real"

definition earth_radius_km :: real where
  "earth_radius_km = 6371"

text \<open>
  \<open>calculate_bounding_box\<close> returns \<open>(min_lat, min_lon, max_lat, max_lon)\<close>; the model
  returns with it the lines printed on the way (the near-pole warning, or nothing).
\<close>

definition calculate_bounding_box :: "real \<Rightarrow> real \<Rightarrow> real \<Rightarrow> py_error + (bbox \<times> line list)" where
  "calculate_bounding_box lat_deg lon_deg size_km =
     (let lat_rad = radians lat_deg;
          delta_lat_rad = (size_km / 2) / earth_radius_km;
          delta_lat_deg = degrees delta_lat_rad;
          parallel_radius_km = earth_radius_km * cos lat_rad;
          delta_lon =
            (if parallel_radius_km < 0.1
             then (case truediv (size_km / 2) (earth_radius_km * cos (radians 1)) of
                     Inl e \<Rightarrow> Inl e
                   | Inr q \<Rightarrow> Inr (degrees q, [Pole_warning lat_deg lon_deg]))
             else (case truediv (size_km / 2) parallel_radius_km of
                     Inl e \<Rightarrow> Inl e
                   | Inr delta_lon_rad \<Rightarrow> Inr (degrees delta_lon_rad, [])))
      in case delta_lon of
           Inl e \<Rightarrow> Inl e
         | Inr (delta_lon_deg, out) \<Rightarrow>
             Inr ((lat_deg - delta_lat_deg, lon_deg - delta_lon_deg,
                   lat_deg + delta_lat_deg, lon_deg + delta_lon_deg), out))"

section \<open>calculate_bounding_box in double precision\<close>










section \<open>The download driver\<close>

text \<open>Configuration constants of the module.\<close>

definition OUTPUT_BASE_DIR :: str where
  "OUTPUT_BASE_DIR = lit ''appdata/map/osm''"

definition BOX_SIZE_KM :: real where
  "BOX_SIZE_KM = 2"

definition REQUEST_TIMEOUT :: nat where
  "REQUEST_TIMEOUT = 1800"

definition API_DELAY :: nat where
  "API_DELAY = 15"

text \<open>
  What the program does to the outside: a line on standard output, a directory created
  with \<open>os.makedirs\<close>, the POST request that \<open>download_osm_data\<close> sends for an output
  path, the response body written to that path, and \<open>time.sleep\<close>.
\<close>

datatype event =
    Print line
  | Makedirs str
  | Post str bbox
  | Write_file str
  | Sleep nat

text \<open>
  What can happen to one call of \<open>download_osm_data\<close>, one case per exit of its
  \<open>try\<close> statement: the response is saved; the request times out; the status is an
  error; another \<open>RequestException\<close>; any other exception before the file is opened,
  when opening it, or when writing to it (the file then exists).
\<close>

datatype outcome =
    Saved
  | Timeout
  | HTTPError nat
  | RequestException
  | Unexpected
  | Open_failed
  | Write_failed

text \<open>
  The surroundings of a run: the alphanumeric table of the Unicode database beyond ASCII
  and the formatting of a float with \<open>.4f\<close> (both of the Python runtime), whether
  \<open>os.makedirs\<close> succeeds on a path, and what happens to the \<open>j\<close>-th request of the
  run (counted from 0).
\<close>

record env =
  unicode_alnum :: "codepoint \<Rightarrow> bool"
  format_4f :: "real \<Rightarrow> str"
  makedirs_ok :: "str \<Rightarrow> bool"
  respond :: "nat \<Rightarrow> outcome"

text \<open>
  The state of a run: the paths for which \<open>os.path.exists\<close> holds, the three counters
  of the main block, and the events so far.
\<close>

record state =
  existing :: "str set"
  processed_count :: nat
  success_count :: nat
  failed_count :: nat
  trace :: "event list"

type_synonym location = "real \<times> real \<times> str"

definition emit :: "event list \<Rightarrow> state \<Rightarrow> state" where
  "emit es st = st\<lparr>trace := trace st @ es\<rparr>"

fun is_post :: "event \<Rightarrow> bool" where
  "is_post (Post p b) = True"
| "is_post _ = False"

fun is_sleep :: "event \<Rightarrow> bool" where
  "is_sleep (Sleep n) = True"
| "is_sleep _ = False"

fun is_skip :: "event \<Rightarrow> bool" where
  "is_skip (Print (Already_exists f)) = True"
| "is_skip _ = False"

definition n_posts :: "event list \<Rightarrow> nat" where
  "n_posts tr = length (filter is_post tr)"

definition n_sleeps :: "event list \<Rightarrow> nat" where
  "n_sleeps tr = length (filter is_sleep tr)"

definition n_skips :: "event list \<Rightarrow> nat" where
  "n_skips tr = length (filter is_skip tr)"

text \<open>\<open>os.path.join\<close> of two components (POSIX).\<close>

definition path_join :: "str \<Rightarrow> str \<Rightarrow> str" where
  "path_join a b =
     (if b \<noteq> [] \<and> hd b = SLASH then b
      else if a = [] \<or> last a = SLASH then a @ b
      else a @ [SLASH] @ b)"

text \<open>
  \<open>os.makedirs(d, exist_ok=True)\<close>: afterwards \<open>d\<close> and each of its ancestors (the
  prefixes of \<open>d\<close> that end before a slash) exist; a failure raises \<open>OSError\<close>.
\<close>

definition ancestors :: "str \<Rightarrow> str list" where
  "ancestors d = map (\<lambda>n. take n d) (filter (\<lambda>n. n = length d \<or> d ! n = SLASH) [1..<Suc (length d)])"

definition makedirs :: "env \<Rightarrow> str \<Rightarrow> state \<Rightarrow> py_error + state" where
  "makedirs e d st =
     (if makedirs_ok e d
      then Inr (emit [Makedirs d] (st\<lparr>existing := existing st \<union> set (ancestors d)\<rparr>))
      else Inl OSError)"

text \<open>
  \<open>download_osm_data\<close>: the request is sent, and what follows is the world's answer to
  it. Every exception is caught and turned into \<open>False\<close>.
\<close>

definition download_osm_data :: "env \<Rightarrow> bbox \<Rightarrow> str \<Rightarrow> state \<Rightarrow> bool \<times> state" where
  "download_osm_data e box output_filepath st =
     (case box of (min_lat, min_lon, max_lat, max_lon) \<Rightarrow>
      let st1 = emit [Print (Querying min_lat min_lon max_lat max_lon), Post output_filepath box] st
      in case respond e (n_posts (trace st)) of
           Saved \<Rightarrow>
             (True, emit [Print (Saving output_filepath), Write_file output_filepath, Print Success]
                      (st1\<lparr>existing := insert output_filepath (existing st1)\<rparr>))
         | Timeout \<Rightarrow> (False, emit [Print (Error_timeout (REQUEST_TIMEOUT + 10))] st1)
         | HTTPError code \<Rightarrow>
             (False, emit ([Print (Error_http code), Print Response_body] @
                           (if code = 429 then [Print Hint_increase_delay]
                            else if code \<ge> 500 then [Print Hint_server_error]
                            else [])) st1)
         | RequestException \<Rightarrow> (False, emit [Print Error_request] st1)
         | Unexpected \<Rightarrow> (False, emit [Print Error_unexpected] st1)
         | Open_failed \<Rightarrow>
             (False, emit [Print (Saving output_filepath), Print Error_unexpected] st1)
         | Write_failed \<Rightarrow>
             (False, emit [Print (Saving output_filepath), Print Error_unexpected]
                       (st1\<lparr>existing := insert output_filepath (existing st1)\<rparr>)))"

text \<open>The file name and the output path of a location (lines 714 to 719).\<close>

definition filename_of :: "env \<Rightarrow> str \<Rightarrow> location \<Rightarrow> str" where
  "filename_of e sanitized_category loc =
     (case loc of (lat, lon, name) \<Rightarrow>
        sanitized_category @ [UNDERSCORE] @ sanitize_filename (unicode_alnum e) name @
        [UNDERSCORE] @ format_4f e lat @ [UNDERSCORE] @ format_4f e lon @ lit ''.osm'')"

definition output_path_of :: "env \<Rightarrow> str \<Rightarrow> str \<Rightarrow> location \<Rightarrow> str" where
  "output_path_of e sanitized_category category_dir loc =
     path_join category_dir (filename_of e sanitized_category loc)"

text \<open>
  The body of the inner loop, for the location at index \<open>i\<close> of a category of \<open>n\<close>
  locations; \<open>total\<close> is \<open>total_locations\<close>.
\<close>

definition process_location ::
  "env \<Rightarrow> nat \<Rightarrow> str \<Rightarrow> str \<Rightarrow> nat \<Rightarrow> nat \<Rightarrow> location \<Rightarrow> state \<Rightarrow> py_error + state" where
  "process_location e tot sanitized_category category_dir n i loc st =
     (case loc of (lat, lon, name) \<Rightarrow>
      let st = st\<lparr>processed_count := processed_count st + 1\<rparr>;
          st = emit [Print (Processing_location (i + 1) n (processed_count st) tot name lat lon)] st;
          filename = filename_of e sanitized_category loc;
          output_path = output_path_of e sanitized_category category_dir loc
      in if output_path \<in> existing st
         then Inr (emit [Print (Already_exists filename)] st\<lparr>success_count := success_count st + 1\<rparr>)
         else (case calculate_bounding_box lat lon BOX_SIZE_KM of
                 Inl err \<Rightarrow> Inl err
               | Inr (box, out) \<Rightarrow>
                   let st = emit (map Print out) st;
                       (success, st) = download_osm_data e box output_path st;
                       st = (if success then st\<lparr>success_count := success_count st + 1\<rparr>
                             else st\<lparr>failed_count := failed_count st + 1\<rparr>)
                   in Inr (if processed_count st < tot
                           then emit [Print (Waiting API_DELAY), Sleep API_DELAY] st
                           else st)))"

fun process_locations ::
  "env \<Rightarrow> nat \<Rightarrow> str \<Rightarrow> str \<Rightarrow> nat \<Rightarrow> nat \<Rightarrow> location list \<Rightarrow> state \<Rightarrow> py_error + state" where
  "process_locations e tot sc dir n i [] st = Inr st"
| "process_locations e tot sc dir n i (loc # locs) st =
     (case process_location e tot sc dir n i loc st of
        Inl err \<Rightarrow> Inl err
      | Inr st' \<Rightarrow> process_locations e tot sc dir n (i + 1) locs st')"

text \<open>The outer loop over \<open>scenes.items()\<close>, in the order of the dictionary.\<close>

fun process_categories ::
  "env \<Rightarrow> nat \<Rightarrow> (str \<times> location list) list \<Rightarrow> state \<Rightarrow> py_error + state" where
  "process_categories e tot [] st = Inr st"
| "process_categories e tot ((category, locations) # rest) st =
     (let sanitized_category = sanitize_filename (unicode_alnum e) category;
          category_dir = path_join OUTPUT_BASE_DIR sanitized_category
      in case makedirs e category_dir st of
           Inl err \<Rightarrow> Inl err
         | Inr st \<Rightarrow>
             (case process_locations e tot sanitized_category category_dir (length locations) 0
                     locations (emit [Print (Processing_category category category_dir)] st) of
                Inl err \<Rightarrow> Inl err
              | Inr st \<Rightarrow> process_categories e tot rest st))"

definition total_locations :: "(str \<times> location list) list \<Rightarrow> nat" where
  "total_locations scenes = sum_list (map (\<lambda>(category, coords). length coords) scenes)"

definition summary :: "state \<Rightarrow> event list" where
  "summary st =
     [Print Summary_header, Print (Total_attempted (processed_count st)),
      Print (Succeeded (success_count st)), Print (Failed_downloads (failed_count st)),
      Print (Data_saved_under OUTPUT_BASE_DIR), Print Finished]"

text \<open>
  The main block, run on the catalog \<open>scenes\<close> with the paths \<open>E\<close> existing at the start.
\<close>

definition main :: "env \<Rightarrow> (str \<times> location list) list \<Rightarrow> str set \<Rightarrow> py_error + state" where
  "main e scenes E =
     (let st = \<lparr>existing = E, processed_count = 0, success_count = 0, failed_count = 0,
                 trace = [Print Starting]\<rparr>
      in case makedirs e OUTPUT_BASE_DIR st of
           Inl err \<Rightarrow> Inl err
         | Inr st \<Rightarrow>
             (case process_categories e (total_locations scenes) scenes st of
                Inl err \<Rightarrow> Inl err
              | Inr st \<Rightarrow> Inr (emit (summary st) st)))"

text \<open>The output paths of the catalog, in the order the driver reaches them.\<close>

definition output_paths :: "env \<Rightarrow> (str \<times> location list) list \<Rightarrow> str list" where
  "output_paths e scenes =
     concat (map (\<lambda>(category, locations).
       map (output_path_of e (sanitize_filename (unicode_alnum e) category)
              (path_join OUTPUT_BASE_DIR (sanitize_filename (unicode_alnum e) category)))
           locations) scenes)"

text \<open>The requests of a run that did not end with a saved file, by their number.\<close>

definition failed_requests :: "env \<Rightarrow> nat \<Rightarrow> nat list" where
  "failed_requests e n = filter (\<lambda>j. respond e j \<noteq> Saved) [0..<n]"

section \<open>Auxiliary notions for the driver\<close>

text \<open>Lines 733 to 744: the counters after the call, and the pause.\<close>

definition account :: "nat \<Rightarrow> bool \<times> state \<Rightarrow> state" where
  "account tot r =
     (let st = (if fst r then (snd r)\<lparr>success_count := success_count (snd r) + 1\<rparr>
                else (snd r)\<lparr>failed_count := failed_count (snd r) + 1\<rparr>)
      in if processed_count st < tot
         then emit [Print (Waiting API_DELAY), Sleep API_DELAY] st
         else st)"

text \<open>Lines 708 to 711: the counter is incremented and the progress line printed.\<close>

definition announced :: "nat \<Rightarrow> nat \<Rightarrow> nat \<Rightarrow> location \<Rightarrow> state \<Rightarrow> state" where
  "announced tot n i loc st =
     (case loc of (lat, lon, name) \<Rightarrow>
        emit [Print (Processing_location (i + 1) n (processed_count st + 1) tot name lat lon)]
          (st\<lparr>processed_count := processed_count st + 1\<rparr>))"

text \<open>
  The accounting invariant of a run: every processed location was counted as a success or
  as a failure, it was skipped or one request was sent for it, and the failures are the
  requests that did not end with a saved file.
\<close>

definition counted :: "env \<Rightarrow> state \<Rightarrow> bool" where
  "counted e st \<longleftrightarrow>
     processed_count st = success_count st + failed_count st \<and>
     n_posts (trace st) + n_skips (trace st) = processed_count st \<and>
     failed_count st = length (failed_requests e (n_posts (trace st)))"

text \<open>
  What a run owes the paths \<open>E\<close> that existed when it started: they still exist, no
  request was sent for any of them, every file written exists, and every pause is the fixed
  delay.
\<close>

definition honours :: "str set \<Rightarrow> state \<Rightarrow> bool" where
  "honours E st \<longleftrightarrow>
     E \<subseteq> existing st \<and>
     (\<forall>q b. Post q b \<in> set (trace st) \<longrightarrow> q \<notin> E) \<and>
     (\<forall>q. Write_file q \<in> set (trace st) \<longrightarrow> q \<in> existing st) \<and>
     (\<forall>x. Sleep x \<in> set (trace st) \<longrightarrow> x = API_DELAY)"

text \<open>
  A run in which no location was skipped so far: one request per processed location, and
  one pause per processed location but the last of the catalog.
\<close>

definition drilled :: "nat \<Rightarrow> state \<Rightarrow> bool" where
  "drilled tot st \<longleftrightarrow>
     n_posts (trace st) = processed_count st \<and>
     n_sleeps (trace st) = min (processed_count st) (tot - 1)"

text \<open>Output paths still to come: pairwise distinct, and none exists.\<close>

definition fresh :: "str list \<Rightarrow> state \<Rightarrow> bool" where
  "fresh ps st \<longleftrightarrow> distinct ps \<and> (\<forall>p \<in> set ps. p \<notin> existing st)"

text \<open>A prefix of the directory of some category: what \<open>os.makedirs\<close> may create.\<close>

definition dirlike :: "(codepoint \<Rightarrow> bool) \<Rightarrow> str \<Rightarrow> bool" where
  "dirlike U p \<longleftrightarrow> (\<exists>c zs. path_join OUTPUT_BASE_DIR (sanitize_filename U c) = p @ zs)"

text \<open>The state in which the main block starts (lines 692 to 699).\<close>

definition initial :: "str set \<Rightarrow> state" where
  "initial E = \<lparr>existing = E, processed_count = 0, success_count = 0, failed_count = 0,
                 trace = [Print Starting]\<rparr>"

text \<open>As long as no location was skipped, the run is \<open>drilled\<close>.\<close>

definition tidy :: "nat \<Rightarrow> state \<Rightarrow> bool" where
  "tidy tot st \<longleftrightarrow> (n_skips (trace st) = 0 \<longrightarrow> drilled tot st)"

section \<open>A small catalog\<close>

text \<open>
  A catalog of one category with two locations on the equator, and surroundings in which
  directories can be created, \<open>0.0\<close> and \<open>1.0\<close> are formatted as Python formats them,
  and the first request times out while every later one is saved (\<open>demo_env\<close>) or every
  request is saved (\<open>saving_env\<close>).
\<close>

definition demo_scenes :: "(str \<times> location list) list" where
  "demo_scenes = [(lit ''Sea'', [(0, 0, lit ''A''), (0, 1, lit ''B'')])]"

definition demo_env :: env where
  "demo_env = \<lparr>unicode_alnum = latin1_alnum,
                format_4f = (\<lambda>x. if x = 0 then lit ''0.0000'' else lit ''1.0000''),
                makedirs_ok = (\<lambda>d. True),
                respond = (\<lambda>j. if j = 0 then Timeout else Saved)\<rparr>"

definition saving_env :: env where
  "saving_env = demo_env\<lparr>respond := (\<lambda>j. Saved)\<rparr>"

section \<open>Properties of the string operations\<close>

lemma lit_unnamed: "lit ''unnamed'' = [117, 110, 110, 97, 109, 101, 100]"
  by (simp add: lit_def)

lemma no_run_Cons:
  "no_run c (x # s) \<longleftrightarrow> no_run c s \<and> (s = [] \<or> \<not> (x = c \<and> hd s = c))"
  by (cases s) auto

lemma no_run_append_left: "no_run c (a @ b) \<Longrightarrow> no_run c a"
  by (induction a rule: no_run.induct) auto

lemma no_run_dropWhile: "no_run c s \<Longrightarrow> no_run c (dropWhile P s)"
  by (induction s) (auto simp: no_run_Cons)

lemma collapse_Nil_iff: "collapse c s = [] \<longleftrightarrow> s = []"
  by (induction c s rule: collapse.induct) simp_all

lemma hd_collapse: "hd (collapse c s) = hd s"
  by (induction c s rule: collapse.induct) simp_all

lemma set_collapse: "set (collapse c s) \<subseteq> set s"
proof (induction c s rule: collapse.induct)
  case (3 c x y zs)
  show ?case
  proof (cases "x = c \<and> y = c")
    case True
    with "3.IH"(1) have "set (collapse c (dropWhile (\<lambda>z. z = c) zs)) \<subseteq>
        set (dropWhile (\<lambda>z. z = c) zs)"
      by simp
    moreover have "set (dropWhile (\<lambda>z. z = c) zs) \<subseteq> set zs"
      by (rule subsetI) (rule set_dropWhileD)
    ultimately have "set (collapse c (dropWhile (\<lambda>z. z = c) zs)) \<subseteq> set zs"
      by (rule subset_trans)
    with True show ?thesis by auto
  next
    case False
    with "3.IH"(2) have "set (collapse c (y # zs)) \<subseteq> set (y # zs)" by simp
    with False show ?thesis by auto
  qed
qed simp_all

lemma collapse_tail_edge:
  "collapse c (dropWhile (\<lambda>z. z = c) zs) = [] \<or>
   hd (collapse c (dropWhile (\<lambda>z. z = c) zs)) \<noteq> c"
proof (cases "dropWhile (\<lambda>z. z = c) zs = []")
  case True
  show ?thesis by (simp only: True collapse.simps simp_thms)
next
  case False
  then have "hd (dropWhile (\<lambda>z. z = c) zs) \<noteq> c" by (rule hd_dropWhile)
  then show ?thesis by (simp add: hd_collapse)
qed

lemma no_run_collapse_any: "no_run d s \<Longrightarrow> no_run d (collapse c s)"
proof (induction c s rule: collapse.induct)
  case (3 c x y zs)
  show ?case
  proof (cases "x = c \<and> y = c")
    case True
    let ?ys = "dropWhile (\<lambda>z. z = c) zs"
    from "3.prems" have "no_run d zs" by (simp add: no_run_Cons)
    then have "no_run d ?ys" by (rule no_run_dropWhile)
    with "3.IH"(1) True have ih: "no_run d (collapse c ?ys)" by simp
    from ih True collapse_tail_edge [of c zs] show ?thesis
      by (auto simp: no_run_Cons)
  next
    case False
    from "3.prems" have nr: "no_run d (y # zs)" and edge: "\<not> (x = d \<and> y = d)"
      by simp_all
    from "3.IH"(2) False nr have ih: "no_run d (collapse c (y # zs))" by simp
    have "hd (collapse c (y # zs)) = y" by (simp add: hd_collapse)
    with ih edge False show ?thesis
      by (auto simp: no_run_Cons)
  qed
qed simp_all

lemma no_run_collapse: "no_run c (collapse c s)"
proof (induction c s rule: collapse.induct)
  case (3 c x y zs)
  show ?case
  proof (cases "x = c \<and> y = c")
    case True
    let ?ys = "dropWhile (\<lambda>z. z = c) zs"
    from "3.IH"(1) True have ih: "no_run c (collapse c ?ys)" by simp
    from ih True collapse_tail_edge [of c zs] show ?thesis
      by (auto simp: no_run_Cons)
  next
    case False
    from "3.IH"(2) False have ih: "no_run c (collapse c (y # zs))" by simp
    have "hd (collapse c (y # zs)) = y" by (simp add: hd_collapse)
    with ih False show ?thesis
      by (auto simp: no_run_Cons)
  qed
qed simp_all

lemma collapse_id: "no_run c s \<Longrightarrow> collapse c s = s"
  by (induction c s rule: collapse.induct) auto

lemma sub_runs_id: "\<forall>c \<in> set s. \<not> p c \<Longrightarrow> sub_runs p r s = s"
  by (induction s) auto

lemma set_sub_runs: "c \<in> set (sub_runs p r s) \<Longrightarrow> c \<in> set r \<or> (c \<in> set s \<and> \<not> p c)"
proof (induction p r s rule: sub_runs.induct)
  case (1 p repl)
  then show ?case by simp
next
  case (2 p repl c' cs)
  show ?case
  proof (cases "p c'")
    case True
    with "2.prems" have "c \<in> set repl \<or> c \<in> set (sub_runs p repl (dropWhile p cs))"
      by simp
    then show ?thesis
    proof
      assume "c \<in> set repl"
      then show ?thesis by simp
    next
      assume "c \<in> set (sub_runs p repl (dropWhile p cs))"
      with "2.IH"(1) True have "c \<in> set repl \<or> (c \<in> set (dropWhile p cs) \<and> \<not> p c)"
        by simp
      then show ?thesis by (auto dest: set_dropWhileD)
    qed
  next
    case False
    with "2.prems" have "c = c' \<or> c \<in> set (sub_runs p repl cs)" by simp
    with "2.IH"(2) False show ?thesis by auto
  qed
qed

lemma py_strip_split: "dropWhile p s = py_strip p s @ rev (takeWhile p (rev (dropWhile p s)))"
proof -
  have "rev (takeWhile p (rev (dropWhile p s)) @ dropWhile p (rev (dropWhile p s))) =
      rev (rev (dropWhile p s))"
    by (simp only: takeWhile_dropWhile_id)
  then have "rev (dropWhile p (rev (dropWhile p s))) @ rev (takeWhile p (rev (dropWhile p s))) =
      dropWhile p s"
    by (simp only: rev_append rev_rev_ident)
  then show ?thesis
    by (simp only: py_strip_def)
qed

lemma set_py_strip: "set (py_strip p s) \<subseteq> set s"
proof
  fix c assume "c \<in> set (py_strip p s)"
  then have "c \<in> set (py_strip p s @ rev (takeWhile p (rev (dropWhile p s))))"
    by simp
  then have "c \<in> set (dropWhile p s)"
    by (simp only: py_strip_split [symmetric])
  then show "c \<in> set s" by (rule set_dropWhileD)
qed

lemma no_run_py_strip: "no_run c s \<Longrightarrow> no_run c (py_strip p s)"
proof -
  assume "no_run c s"
  then have "no_run c (dropWhile p s)" by (rule no_run_dropWhile)
  then have "no_run c (py_strip p s @ rev (takeWhile p (rev (dropWhile p s))))"
    by (simp only: py_strip_split [symmetric])
  then show ?thesis by (rule no_run_append_left)
qed

lemma py_strip_edges:
  "py_strip p s = [] \<or> (\<not> p (hd (py_strip p s)) \<and> \<not> p (last (py_strip p s)))"
proof (cases "py_strip p s = []")
  case True
  then show ?thesis by simp
next
  case False
  let ?u = "dropWhile p s"
  from False have ne: "dropWhile p (rev ?u) \<noteq> []" by (simp add: py_strip_def)
  have "last (py_strip p s) = hd (dropWhile p (rev ?u))"
    by (simp add: py_strip_def last_rev)
  moreover have "\<not> p (hd (dropWhile p (rev ?u)))"
    using ne by (rule hd_dropWhile)
  ultimately have l: "\<not> p (last (py_strip p s))" by simp
  have "hd (py_strip p s @ rev (takeWhile p (rev ?u))) = hd (py_strip p s)"
    using False by (rule hd_append2)
  then have eq: "hd ?u = hd (py_strip p s)"
    by (simp only: py_strip_split [symmetric])
  have "?u \<noteq> []"
  proof
    assume "?u = []"
    then have "py_strip p s = rev (dropWhile p (rev []))" by (simp only: py_strip_def)
    then have "py_strip p s = []" by simp
    with False show False ..
  qed
  then have "\<not> p (hd ?u)" by (rule hd_dropWhile)
  with eq l show ?thesis by simp
qed

lemma py_strip_id: "s = [] \<or> (\<not> p (hd s) \<and> \<not> p (last s)) \<Longrightarrow> py_strip p s = s"
proof -
  assume a: "s = [] \<or> (\<not> p (hd s) \<and> \<not> p (last s))"
  then have "s = [] \<or> \<not> p (hd s)" by blast
  then have 1: "dropWhile p s = s" by (simp only: dropWhile_eq_self_iff)
  from a have "rev s = [] \<or> \<not> p (last s)" by auto
  then have "rev s = [] \<or> \<not> p (hd (rev s))" by (simp only: hd_rev)
  then have "dropWhile p (rev s) = rev s" by (simp only: dropWhile_eq_self_iff)
  with 1 show ?thesis by (simp add: py_strip_def)
qed


lemma sanitize_filename_steps:
  "sanitize_filename U s = (if sanitize_steps U s = [] then lit ''unnamed'' else sanitize_steps U s)"
  by (simp add: sanitize_filename_def sanitize_steps_def Let_def)

lemma underscore_not_separator: "\<not> is_separator UNDERSCORE"
  by (simp add: is_separator_def py_isspace_def UNDERSCORE_def SLASH_def BACKSLASH_def COLON_def)

lemma steps_subset:
  "set (sanitize_steps U s) \<subseteq>
     set (filter (is_kept U) (sub_runs is_separator [UNDERSCORE] (py_strip py_isspace s)))"
  unfolding sanitize_steps_def
  by (rule subset_trans [OF set_py_strip subset_trans [OF set_collapse set_collapse]])

lemma steps_chars:
  assumes "c \<in> set (sanitize_steps U s)"
  shows "is_kept U c" and "\<not> is_separator c" and "c = UNDERSCORE \<or> c \<in> set s"
proof -
  from assms steps_subset have m: "c \<in> set (filter (is_kept U)
      (sub_runs is_separator [UNDERSCORE] (py_strip py_isspace s)))"
    by blast
  then show "is_kept U c" by simp
  from m have "c \<in> set (sub_runs is_separator [UNDERSCORE] (py_strip py_isspace s))"
    by simp
  then have d: "c \<in> set [UNDERSCORE] \<or> (c \<in> set (py_strip py_isspace s) \<and> \<not> is_separator c)"
    by (rule set_sub_runs)
  then show "\<not> is_separator c"
    using underscore_not_separator by auto
  from d set_py_strip [of py_isspace s] show "c = UNDERSCORE \<or> c \<in> set s"
    by auto
qed

lemma steps_no_run:
  "no_run UNDERSCORE (sanitize_steps U s)" "no_run HYPHEN (sanitize_steps U s)"
  unfolding sanitize_steps_def
  by (simp_all add: no_run_py_strip no_run_collapse no_run_collapse_any)

lemma steps_edges:
  "sanitize_steps U s = [] \<or>
     (\<not> is_edge (hd (sanitize_steps U s)) \<and> \<not> is_edge (last (sanitize_steps U s)))"
  unfolding sanitize_steps_def by (rule py_strip_edges)

lemma steps_fixed:
  assumes kept: "\<forall>c \<in> set t. is_kept U c"
    and nosep: "\<forall>c \<in> set t. \<not> is_separator c"
    and nr: "no_run UNDERSCORE t" "no_run HYPHEN t"
    and edges: "t = [] \<or> (\<not> is_edge (hd t) \<and> \<not> is_edge (last t))"
  shows "sanitize_steps U t = t"
proof -
  have "t = [] \<or> (\<not> py_isspace (hd t) \<and> \<not> py_isspace (last t))"
  proof (cases "t = []")
    case True
    then show ?thesis by simp
  next
    case False
    then have "hd t \<in> set t" "last t \<in> set t" by simp_all
    with nosep have "\<not> is_separator (hd t)" "\<not> is_separator (last t)" by blast+
    then show ?thesis by (simp add: is_separator_def)
  qed
  then have 1: "py_strip py_isspace t = t" by (rule py_strip_id)
  from nosep have 2: "sub_runs is_separator [UNDERSCORE] t = t" by (rule sub_runs_id)
  from kept have 3: "filter (is_kept U) t = t" by simp
  from nr have 4: "collapse UNDERSCORE t = t" "collapse HYPHEN t = t"
    by (simp_all add: collapse_id)
  from edges have 5: "py_strip is_edge t = t" by (rule py_strip_id)
  show ?thesis
    by (simp only: sanitize_steps_def 1 2 3 4 5)
qed

lemma steps_idem: "sanitize_steps U (sanitize_steps U s) = sanitize_steps U s"
  by (rule steps_fixed) (auto simp: steps_chars steps_no_run steps_edges)

lemma steps_unnamed: "sanitize_steps U (lit ''unnamed'') = lit ''unnamed''"
  by (rule steps_fixed)
    (simp_all add: lit_unnamed is_kept_def is_word_def py_isalnum_def ascii_alnum_def
      is_separator_def py_isspace_def is_edge_def UNDERSCORE_def HYPHEN_def PERIOD_def
      SLASH_def BACKSLASH_def COLON_def)

lemma unnamed_props:
  "lit ''unnamed'' \<noteq> []" "\<forall>c \<in> set (lit ''unnamed''). ascii_allowed c \<and> is_kept U c"
  "\<not> is_edge (hd (lit ''unnamed''))" "\<not> is_edge (last (lit ''unnamed''))"
  by (simp_all add: lit_unnamed is_kept_def is_word_def py_isalnum_def ascii_alnum_def
      ascii_allowed_def is_edge_def UNDERSCORE_def HYPHEN_def PERIOD_def)

text \<open>
  Claim C6. \<open>sanitize_filename\<close> is idempotent: for every input string \<open>s\<close> (and whatever
  the Unicode database classifies as alphanumeric beyond ASCII), sanitizing the result
  again returns it unchanged. The first pass leaves no whitespace, separator or removed
  character, no run of underscores or of hyphens and no underscore or hyphen at either
  end, so every step of the second pass is the identity; the fallback \<open>"unnamed"\<close> is a
  fixed point as well.
\<close>

theorem sanitize_filename_idempotent:
  "sanitize_filename U (sanitize_filename U s) = sanitize_filename U s"
proof (cases "sanitize_steps U s = []")
  case True
  then show ?thesis
    using unnamed_props(1) by (simp add: sanitize_filename_steps steps_unnamed)
next
  case False
  then show ?thesis
    by (simp add: sanitize_filename_steps steps_idem)
qed

lemma kept_ascii: "is_kept U c \<Longrightarrow> c < 128 \<Longrightarrow> ascii_allowed c"
  by (auto simp: is_kept_def is_word_def py_isalnum_def ascii_allowed_def)

text \<open>
  Claim C2, as amended. For every input string \<open>s\<close>, the empty string and strings made
  only of removed characters included, \<open>sanitize_filename\<close> returns a non-empty string.
  Each of its characters is kept by the pattern \<open>[^\w\-\.]\<close>: it is a word character in
  Python's sense (an alphanumeric code point of the Unicode database or the underscore), a
  hyphen or a period. When the input is ASCII, every character of the result is in
  \<open>[A-Za-z0-9_.-]\<close>. The result neither starts nor ends with an underscore or a hyphen,
  and when the six rewriting steps leave nothing, the result is the literal \<open>"unnamed"\<close>.
\<close>

theorem sanitize_filename_total:
  "sanitize_filename U s \<noteq> [] \<and>
   (\<forall>c \<in> set (sanitize_filename U s). is_kept U c) \<and>
   ((\<forall>c \<in> set s. c < 128) \<longrightarrow> (\<forall>c \<in> set (sanitize_filename U s). ascii_allowed c)) \<and>
   \<not> is_edge (hd (sanitize_filename U s)) \<and>
   \<not> is_edge (last (sanitize_filename U s)) \<and>
   (sanitize_steps U s = [] \<longrightarrow> sanitize_filename U s = lit ''unnamed'')"
proof (cases "sanitize_steps U s = []")
  case True
  then show ?thesis
    using unnamed_props by (simp add: sanitize_filename_steps)
next
  case False
  have "\<forall>c \<in> set (sanitize_steps U s). is_kept U c"
    by (simp add: steps_chars)
  moreover have "(\<forall>c \<in> set s. c < 128) \<longrightarrow> (\<forall>c \<in> set (sanitize_steps U s). ascii_allowed c)"
  proof (intro impI ballI)
    fix c assume a: "\<forall>c \<in> set s. c < 128" and c: "c \<in> set (sanitize_steps U s)"
    from c have "c = UNDERSCORE \<or> c \<in> set s" by (rule steps_chars)
    with a have "c < 128" by (auto simp: UNDERSCORE_def)
    with steps_chars(1) [OF c] show "ascii_allowed c" by (rule kept_ascii)
  qed
  ultimately show ?thesis
    using False steps_edges [of U s] by (simp add: sanitize_filename_steps)
qed

text \<open>
  The result is exercised on the spec's example \<open>"  Central Hong Kong! "\<close>, an ASCII input,
  and on \<open>"!!"\<close>, of which sanitization leaves nothing.
\<close>

theorem sanitize_filename_total_witness:
  "list_all (\<lambda>c. c < 128) (lit ''  Central Hong Kong! '') \<and>
   sanitize_filename latin1_alnum (lit ''  Central Hong Kong! '') = lit ''Central_Hong_Kong'' \<and>
   list_all ascii_allowed (sanitize_filename latin1_alnum (lit ''  Central Hong Kong! '')) \<and>
   sanitize_steps latin1_alnum (lit ''!!'') = [] \<and>
   sanitize_filename latin1_alnum (lit ''!!'') = lit ''unnamed''"
proof -
  have ascii: "\<forall>c \<in> set (lit ''  Central Hong Kong! ''). c < 128"
    by (simp add: lit_def)
  have steps: "sanitize_steps latin1_alnum (lit ''!!'') = []"
    by (simp add: sanitize_steps_def py_strip_def lit_def is_kept_def is_word_def
        py_isalnum_def ascii_alnum_def is_separator_def py_isspace_def is_edge_def
        UNDERSCORE_def HYPHEN_def PERIOD_def SLASH_def BACKSLASH_def COLON_def)
  have val: "sanitize_filename latin1_alnum (lit ''  Central Hong Kong! '') =
      lit ''Central_Hong_Kong''"
    by (simp add: sanitize_filename_def py_strip_def Let_def lit_def is_kept_def is_word_def
        py_isalnum_def ascii_alnum_def is_separator_def py_isspace_def is_edge_def
        UNDERSCORE_def HYPHEN_def PERIOD_def SLASH_def BACKSLASH_def COLON_def)
  from sanitize_filename_total [of latin1_alnum "lit ''  Central Hong Kong! ''"] ascii
  have "\<forall>c \<in> set (sanitize_filename latin1_alnum (lit ''  Central Hong Kong! '')).
      ascii_allowed c"
    by blast
  moreover from sanitize_filename_total [of latin1_alnum "lit ''!!''"] steps
  have "sanitize_filename latin1_alnum (lit ''!!'') = lit ''unnamed''"
    by blast
  ultimately show ?thesis
    using ascii steps val by (simp only: list_all_iff simp_thms)
qed

text \<open>
  Claim C2 as stated fails beyond ASCII: \<open>\w\<close> in a \<open>str\<close> pattern matches every
  alphanumeric code point of the Unicode database, so \<open>sanitize_filename("\u00e9")\<close>
  (LATIN SMALL LETTER E WITH ACUTE, code point 233) returns the string unchanged, and its
  character is not in \<open>[A-Za-z0-9_.-]\<close>.
\<close>

theorem sanitize_filename_nonascii:
  "sanitize_filename latin1_alnum [233] = [233] \<and> \<not> ascii_allowed 233"
  by (simp add: sanitize_filename_def py_strip_def Let_def is_kept_def is_word_def py_isalnum_def
      latin1_alnum_def ascii_alnum_def ascii_allowed_def
      is_separator_def py_isspace_def is_edge_def UNDERSCORE_def HYPHEN_def PERIOD_def
      SLASH_def BACKSLASH_def COLON_def)

section \<open>Properties of calculate_bounding_box\<close>

lemma cos_radians_1_pos: "0 < cos (radians 1)"
proof -
  have "radians 1 < pi / 2" "- (pi / 2) < radians 1"
    using pi_gt_zero by (simp_all add: radians_def)
  then show ?thesis by (simp add: cos_gt_zero_pi)
qed

lemma bounding_box_pole:
  "earth_radius_km * cos (radians lat) < 0.1 \<Longrightarrow>
   calculate_bounding_box lat lon size_km =
     Inr ((lat - degrees ((size_km / 2) / earth_radius_km),
           lon - degrees ((size_km / 2) / (earth_radius_km * cos (radians 1))),
           lat + degrees ((size_km / 2) / earth_radius_km),
           lon + degrees ((size_km / 2) / (earth_radius_km * cos (radians 1)))),
          [Pole_warning lat lon])"
  using cos_radians_1_pos
  by (simp add: calculate_bounding_box_def truediv_def earth_radius_km_def Let_def)

lemma bounding_box_normal:
  "\<not> earth_radius_km * cos (radians lat) < 0.1 \<Longrightarrow>
   calculate_bounding_box lat lon size_km =
     Inr ((lat - degrees ((size_km / 2) / earth_radius_km),
           lon - degrees ((size_km / 2) / (earth_radius_km * cos (radians lat))),
           lat + degrees ((size_km / 2) / earth_radius_km),
           lon + degrees ((size_km / 2) / (earth_radius_km * cos (radians lat)))),
          [])"
  by (auto simp add: calculate_bounding_box_def truediv_def earth_radius_km_def Let_def)

text \<open>The divisor of the longitude half-extent, whichever branch is taken.\<close>

lemma bounding_box_form:
  "\<exists>d out. 0 < d \<and>
     calculate_bounding_box lat lon size_km =
       Inr ((lat - degrees ((size_km / 2) / earth_radius_km),
             lon - degrees ((size_km / 2) / d),
             lat + degrees ((size_km / 2) / earth_radius_km),
             lon + degrees ((size_km / 2) / d)), out)"
proof (cases "earth_radius_km * cos (radians lat) < 0.1")
  case True
  have "0 < earth_radius_km * cos (radians 1)"
    using cos_radians_1_pos by (simp add: earth_radius_km_def)
  with bounding_box_pole [OF True] show ?thesis by blast
next
  case False
  then have "0 < earth_radius_km * cos (radians lat)" by simp
  with bounding_box_normal [OF False] show ?thesis by blast
qed

text \<open>
  Claim C4. Whenever the parallel radius \<open>earth_radius_km * cos(radians(lat))\<close> is below
  0.1, the longitude half-extent is \<open>degrees((size_km/2) / (6371 * cos(radians(1))))\<close>,
  computed at the fixed latitude of one degree, and the warning is printed; otherwise the
  divisor is the parallel radius of the true latitude and nothing is printed. In both
  cases the function returns.
\<close>

theorem calculate_bounding_box_pole_fallback:
  "(6371 * cos (radians lat) < 0.1 \<longrightarrow>
      calculate_bounding_box lat lon size_km =
        Inr ((lat - degrees ((size_km / 2) / 6371),
              lon - degrees ((size_km / 2) / (6371 * cos (radians 1))),
              lat + degrees ((size_km / 2) / 6371),
              lon + degrees ((size_km / 2) / (6371 * cos (radians 1)))),
             [Pole_warning lat lon])) \<and>
   (\<not> 6371 * cos (radians lat) < 0.1 \<longrightarrow>
      calculate_bounding_box lat lon size_km =
        Inr ((lat - degrees ((size_km / 2) / 6371),
              lon - degrees ((size_km / 2) / (6371 * cos (radians lat))),
              lat + degrees ((size_km / 2) / 6371),
              lon + degrees ((size_km / 2) / (6371 * cos (radians lat)))),
             []))"
  using bounding_box_pole [of lat lon size_km] bounding_box_normal [of lat lon size_km]
  by (simp add: earth_radius_km_def)

lemma radians_90: "radians 90 = pi / 2"
  by (simp add: radians_def)

lemma radians_0: "radians 0 = 0"
  by (simp add: radians_def)

theorem calculate_bounding_box_pole_fallback_witness:
  "6371 * cos (radians 90) < (0.1 :: real) \<and>
   calculate_bounding_box 90 0 2 =
     Inr ((90 - degrees (1 / 6371), 0 - degrees (1 / (6371 * cos (radians 1))),
           90 + degrees (1 / 6371), 0 + degrees (1 / (6371 * cos (radians 1)))),
          [Pole_warning 90 0]) \<and>
   \<not> 6371 * cos (radians 0) < (0.1 :: real) \<and>
   calculate_bounding_box 0 0 2 =
     Inr ((0 - degrees (1 / 6371), 0 - degrees (1 / 6371),
           0 + degrees (1 / 6371), 0 + degrees (1 / 6371)), [])"
  using calculate_bounding_box_pole_fallback [of 90 0 2]
    calculate_bounding_box_pole_fallback [of 0 0 2]
  by (simp add: radians_90 radians_0)

text \<open>
  Claim C7. For every center and side length the box is symmetric about the center, as
  equations between real numbers: \<open>max_lat - lat = lat - min_lat\<close> and
  \<open>max_lon - lon = lon - min_lon\<close>.
\<close>

theorem calculate_bounding_box_symmetric:
  "\<exists>min_lat min_lon max_lat max_lon out.
     calculate_bounding_box lat lon size_km = Inr ((min_lat, min_lon, max_lat, max_lon), out) \<and>
     max_lat - lat = lat - min_lat \<and> max_lon - lon = lon - min_lon"
proof -
  obtain d out where
    "calculate_bounding_box lat lon size_km =
      Inr ((lat - degrees ((size_km / 2) / earth_radius_km),
            lon - degrees ((size_km / 2) / d),
            lat + degrees ((size_km / 2) / earth_radius_km),
            lon + degrees ((size_km / 2) / d)), out)"
    using bounding_box_form by blast
  then show ?thesis by simp
qed

text \<open>
  Claim C8. For a fixed center, doubling \<open>size_km\<close> doubles the latitude extent and the
  longitude extent of the box, as equations between real numbers. The branch depends on
  the latitude only, so both calls take the same one (they print the same lines), and the
  statement covers the normal and the near-pole branch.
\<close>

theorem calculate_bounding_box_scaling:
  "\<exists>min_lat min_lon max_lat max_lon min_lat' min_lon' max_lat' max_lon' out.
     calculate_bounding_box lat lon size_km = Inr ((min_lat, min_lon, max_lat, max_lon), out) \<and>
     calculate_bounding_box lat lon (2 * size_km) =
       Inr ((min_lat', min_lon', max_lat', max_lon'), out) \<and>
     max_lat' - min_lat' = 2 * (max_lat - min_lat) \<and>
     max_lon' - min_lon' = 2 * (max_lon - min_lon)"
proof (cases "earth_radius_km * cos (radians lat) < 0.1")
  case True
  show ?thesis
    by (simp add: bounding_box_pole [OF True] degrees_def)
next
  case False
  show ?thesis
    by (simp add: bounding_box_normal [OF False] degrees_def)
qed

lemma calculate_bounding_box_returns:
  "\<exists>box out. calculate_bounding_box lat lon size_km = Inr (box, out)"
  using bounding_box_form [of lat lon size_km] by blast

section \<open>The box of a positive side length\<close>














section \<open>Properties of the driver\<close>


lemma filter_map_Print [simp]:
  "filter is_post (map Print out) = []" "filter is_sleep (map Print out) = []"
  by (induction out) simp_all

lemma trace_emit [simp]: "trace (emit es st) = trace st @ es"
  and existing_emit [simp]: "existing (emit es st) = existing st"
  and processed_emit [simp]: "processed_count (emit es st) = processed_count st"
  and success_emit [simp]: "success_count (emit es st) = success_count st"
  and failed_emit [simp]: "failed_count (emit es st) = failed_count st"
  by (simp_all add: emit_def)

text \<open>The events that follow the request, and the state after \<open>download_osm_data\<close>.\<close>

lemma download_fst:
  "fst (download_osm_data e box p st) \<longleftrightarrow> respond e (n_posts (trace st)) = Saved"
  by (cases box; cases "respond e (n_posts (trace st))") (simp_all add: download_osm_data_def Let_def)

lemma download_counters:
  "processed_count (snd (download_osm_data e box p st)) = processed_count st"
  "success_count (snd (download_osm_data e box p st)) = success_count st"
  "failed_count (snd (download_osm_data e box p st)) = failed_count st"
  by (cases box; cases "respond e (n_posts (trace st))"; simp add: download_osm_data_def Let_def)+

lemma download_existing:
  "existing st \<subseteq> existing (snd (download_osm_data e box p st))"
  "existing (snd (download_osm_data e box p st)) \<subseteq> insert p (existing st)"
  by (cases box; cases "respond e (n_posts (trace st))"; auto simp add: download_osm_data_def Let_def)+

lemma download_posts:
  "n_posts (trace (snd (download_osm_data e box p st))) = n_posts (trace st) + 1"
  "Post q b \<in> set (trace (snd (download_osm_data e box p st))) \<longleftrightarrow>
     Post q b \<in> set (trace st) \<or> (q = p \<and> b = box)"
  by (cases box; cases "respond e (n_posts (trace st))";
      auto simp add: download_osm_data_def Let_def n_posts_def)+

lemma download_quiet:
  "n_sleeps (trace (snd (download_osm_data e box p st))) = n_sleeps (trace st)"
  "n_skips (trace (snd (download_osm_data e box p st))) = n_skips (trace st)"
  "Sleep x \<in> set (trace (snd (download_osm_data e box p st))) \<longleftrightarrow> Sleep x \<in> set (trace st)"
  by (cases box; cases "respond e (n_posts (trace st))";
      auto simp add: download_osm_data_def Let_def n_sleeps_def n_skips_def)+

lemma download_writes:
  "Write_file q \<in> set (trace (snd (download_osm_data e box p st))) \<Longrightarrow>
     Write_file q \<in> set (trace st) \<or> q \<in> existing (snd (download_osm_data e box p st))"
  by (cases box; cases "respond e (n_posts (trace st))";
      auto simp add: download_osm_data_def Let_def split: if_splits)

lemma download_extends:
  "\<exists>es. trace (snd (download_osm_data e box p st)) = trace st @ es"
  by (cases box; cases "respond e (n_posts (trace st))";
      simp add: download_osm_data_def Let_def)

lemma process_location_skip:
  "output_path_of e sc dir loc \<in> existing st \<Longrightarrow>
   process_location e tot sc dir n i loc st =
     Inr (emit [Print (Already_exists (filename_of e sc loc))]
           ((announced tot n i loc st)\<lparr>success_count := success_count st + 1\<rparr>))"
  by (cases loc) (simp add: process_location_def announced_def Let_def)

lemma bounding_box_out:
  "calculate_bounding_box lat lon size_km = Inr (box, out) \<Longrightarrow> filter is_skip (map Print out) = []"
  using bounding_box_pole [of lat lon size_km] bounding_box_normal [of lat lon size_km]
  by (cases "earth_radius_km * cos (radians lat) < 0.1") auto

lemma process_location_attempt:
  "output_path_of e sc dir loc \<notin> existing st \<Longrightarrow>
   \<exists>box out. filter is_skip (map Print out) = [] \<and>
     process_location e tot sc dir n i loc st =
       Inr (account tot (download_osm_data e box (output_path_of e sc dir loc)
              (emit (map Print out) (announced tot n i loc st))))"
proof -
  assume a: "output_path_of e sc dir loc \<notin> existing st"
  obtain lat lon name where loc: "loc = (lat, lon, name)" by (cases loc)
  obtain box out where b: "calculate_bounding_box lat lon BOX_SIZE_KM = Inr (box, out)"
    using calculate_bounding_box_returns by blast
  from a have "process_location e tot sc dir n i loc st =
       Inr (account tot (download_osm_data e box (output_path_of e sc dir loc)
              (emit (map Print out) (announced tot n i loc st))))"
    by (simp add: loc b process_location_def announced_def account_def Let_def case_prod_beta)
  with bounding_box_out [OF b] show ?thesis by blast
qed

lemma account_simps [simp]:
  "trace (account tot r) = trace (snd r) @
     (if processed_count (snd r) < tot then [Print (Waiting API_DELAY), Sleep API_DELAY] else [])"
  "existing (account tot r) = existing (snd r)"
  "processed_count (account tot r) = processed_count (snd r)"
  "success_count (account tot r) = success_count (snd r) + (if fst r then 1 else 0)"
  "failed_count (account tot r) = failed_count (snd r) + (if fst r then 0 else 1)"
  by (simp_all add: account_def Let_def)

lemma announced_simps [simp]:
  "existing (announced tot n i loc st) = existing st"
  "processed_count (announced tot n i loc st) = processed_count st + 1"
  "success_count (announced tot n i loc st) = success_count st"
  "failed_count (announced tot n i loc st) = failed_count st"
  "n_posts (trace (announced tot n i loc st)) = n_posts (trace st)"
  "n_sleeps (trace (announced tot n i loc st)) = n_sleeps (trace st)"
  "n_skips (trace (announced tot n i loc st)) = n_skips (trace st)"
  "Post q b \<in> set (trace (announced tot n i loc st)) \<longleftrightarrow> Post q b \<in> set (trace st)"
  "Write_file q \<in> set (trace (announced tot n i loc st)) \<longleftrightarrow> Write_file q \<in> set (trace st)"
  "Sleep x \<in> set (trace (announced tot n i loc st)) \<longleftrightarrow> Sleep x \<in> set (trace st)"
  by (cases loc; auto simp add: announced_def n_posts_def n_sleeps_def n_skips_def)+

lemma counts_map_Print [simp]:
  "n_posts (map Print out) = 0" "n_sleeps (map Print out) = 0"
  by (simp_all add: n_posts_def n_sleeps_def)

lemma failed_requests_Suc:
  "failed_requests e (Suc k) = failed_requests e k @ (if respond e k \<noteq> Saved then [k] else [])"
  by (simp add: failed_requests_def)

lemma process_location_returns:
  "\<exists>st'. process_location e tot sc dir n i loc st = Inr st'"
  using process_location_skip [of e sc dir loc st tot n i]
    process_location_attempt [of e sc dir loc st tot n i]
  by (cases "output_path_of e sc dir loc \<in> existing st") auto

lemma counts_Nil [simp]: "n_skips [] = 0" "n_posts [] = 0" "n_sleeps [] = 0"
  by (simp_all add: n_skips_def n_posts_def n_sleeps_def)

lemma n_skips_append [simp]: "n_skips (tr @ es) = n_skips tr + n_skips es"
  and n_posts_append [simp]: "n_posts (tr @ es) = n_posts tr + n_posts es"
  and n_sleeps_append [simp]: "n_sleeps (tr @ es) = n_sleeps tr + n_sleeps es"
  by (simp_all add: n_skips_def n_posts_def n_sleeps_def)

lemma process_location_counted:
  assumes "process_location e tot sc dir n i loc st = Inr st'" and "counted e st"
  shows "counted e st' \<and> processed_count st' = processed_count st + 1"
proof (cases "output_path_of e sc dir loc \<in> existing st")
  case True
  from assms(1) process_location_skip [OF True, of tot n i]
  have "st' = emit [Print (Already_exists (filename_of e sc loc))]
         ((announced tot n i loc st)\<lparr>success_count := success_count st + 1\<rparr>)"
    by simp
  moreover have "n_skips [Print (Already_exists (filename_of e sc loc))] = 1"
    "n_posts [Print (Already_exists (filename_of e sc loc))] = 0"
    by (simp_all add: n_skips_def n_posts_def)
  ultimately show ?thesis
    using assms(2) by (simp add: counted_def)
next
  case False
  from process_location_attempt [OF False, of tot n i] assms(1)
  obtain box out where out: "filter is_skip (map Print out) = []"
    and st': "st' = account tot (download_osm_data e box (output_path_of e sc dir loc)
            (emit (map Print out) (announced tot n i loc st)))"
    by auto
  define s2 where "s2 = emit (map Print out) (announced tot n i loc st)"
  have s2: "n_posts (trace s2) = n_posts (trace st)" "n_skips (trace s2) = n_skips (trace st)"
    "processed_count s2 = processed_count st + 1" "success_count s2 = success_count st"
    "failed_count s2 = failed_count st"
proof -
    from out have "n_skips (map Print out) = 0" by (simp add: n_skips_def)
    then show "n_skips (trace s2) = n_skips (trace st)" by (simp add: s2_def)
  qed (simp_all add: s2_def)
  let ?d = "download_osm_data e box (output_path_of e sc dir loc) s2"
  have w: "n_skips [Print (Waiting API_DELAY), Sleep API_DELAY] = 0"
    "n_posts [Print (Waiting API_DELAY), Sleep API_DELAY] = 0"
    by (simp_all add: n_skips_def n_posts_def)
  have d: "n_posts (trace (snd ?d)) = n_posts (trace st) + 1"
    "n_skips (trace (snd ?d)) = n_skips (trace st)"
    "processed_count (snd ?d) = processed_count st + 1"
    "success_count (snd ?d) = success_count st" "failed_count (snd ?d) = failed_count st"
    "fst ?d \<longleftrightarrow> respond e (n_posts (trace st)) = Saved"
    by (simp_all add: download_posts download_quiet download_counters download_fst s2)
  from st' have "st' = account tot ?d" by (simp add: s2_def)
  with assms(2) d w show ?thesis
    by (simp add: counted_def failed_requests_Suc)
qed


lemma process_location_existing:
  assumes "process_location e tot sc dir n i loc st = Inr st'"
  shows "existing st \<subseteq> existing st'"
    and "existing st' \<subseteq> insert (output_path_of e sc dir loc) (existing st)"
proof -
  have "existing st \<subseteq> existing st' \<and>
      existing st' \<subseteq> insert (output_path_of e sc dir loc) (existing st)"
  proof (cases "output_path_of e sc dir loc \<in> existing st")
    case True
    from assms process_location_skip [OF True, of tot n i] show ?thesis by auto
  next
    case False
    from process_location_attempt [OF False, of tot n i] assms
    obtain box out where "st' = account tot (download_osm_data e box (output_path_of e sc dir loc)
            (emit (map Print out) (announced tot n i loc st)))"
      by auto
    then show ?thesis
      using download_existing [where st = "emit (map Print out) (announced tot n i loc st)"
          and e = e and box = box and p = "output_path_of e sc dir loc"]
      by simp
  qed
  then show "existing st \<subseteq> existing st'"
    and "existing st' \<subseteq> insert (output_path_of e sc dir loc) (existing st)"
    by simp_all
qed

lemma process_location_honours:
  assumes "process_location e tot sc dir n i loc st = Inr st'" and "honours E st"
  shows "honours E st'"
proof (cases "output_path_of e sc dir loc \<in> existing st")
  case True
  from assms(1) process_location_skip [OF True, of tot n i]
  have "st' = emit [Print (Already_exists (filename_of e sc loc))]
         ((announced tot n i loc st)\<lparr>success_count := success_count st + 1\<rparr>)"
    by simp
  with assms(2) show ?thesis
    by (cases loc) (auto simp add: honours_def announced_def)
next
  case False
  from process_location_attempt [OF False, of tot n i] assms(1)
  obtain box out where st': "st' = account tot (download_osm_data e box (output_path_of e sc dir loc)
          (emit (map Print out) (announced tot n i loc st)))"
    by auto
  define s2 where "s2 = emit (map Print out) (announced tot n i loc st)"
  let ?p = "output_path_of e sc dir loc"
  let ?d = "download_osm_data e box ?p s2"
  have s2: "existing s2 = existing st"
    "\<And>q b. Post q b \<in> set (trace s2) \<longleftrightarrow> Post q b \<in> set (trace st)"
    "\<And>q. Write_file q \<in> set (trace s2) \<longleftrightarrow> Write_file q \<in> set (trace st)"
    "\<And>x. Sleep x \<in> set (trace s2) \<longleftrightarrow> Sleep x \<in> set (trace st)"
    by (auto simp add: s2_def)
  from st' have eq: "st' = account tot ?d" by (simp add: s2_def)
  from assms(2) have E: "E \<subseteq> existing st" by (simp add: honours_def)
  with False have notE: "?p \<notin> E" by blast
  have ex: "existing st \<subseteq> existing (snd ?d)"
    using download_existing(1) [where st = s2 and e = e and box = box and p = ?p]
    by (simp add: s2)
  have 1: "E \<subseteq> existing st'" using E ex by (auto simp add: eq)
  have 2: "\<forall>q b. Post q b \<in> set (trace st') \<longrightarrow> q \<notin> E"
    using assms(2) notE by (auto simp add: eq download_posts s2 honours_def)
  have 3: "\<forall>q. Write_file q \<in> set (trace st') \<longrightarrow> q \<in> existing st'"
  proof (intro allI impI)
    fix q assume "Write_file q \<in> set (trace st')"
    then have "Write_file q \<in> set (trace (snd ?d))"
      by (auto simp add: eq split: if_splits)
    then have "Write_file q \<in> set (trace s2) \<or> q \<in> existing (snd ?d)"
      by (rule download_writes)
    with assms(2) ex show "q \<in> existing st'"
      by (auto simp add: eq s2 honours_def)
  qed
  have 4: "\<forall>x. Sleep x \<in> set (trace st') \<longrightarrow> x = API_DELAY"
    using assms(2) by (auto simp add: eq download_quiet s2 honours_def split: if_splits)
  from 1 2 3 4 show ?thesis by (simp add: honours_def)
qed

text \<open>A location whose file does not exist: one request, and the pause unless it is the last.\<close>

lemma process_location_fresh:
  assumes "process_location e tot sc dir n i loc st = Inr st'"
    and "output_path_of e sc dir loc \<notin> existing st"
  shows "n_posts (trace st') = n_posts (trace st) + 1"
    and "n_sleeps (trace st') = n_sleeps (trace st) + (if processed_count st + 1 < tot then 1 else 0)"
    and "processed_count st' = processed_count st + 1"
proof -
  from process_location_attempt [OF assms(2), of tot n i] assms(1)
  obtain box out where st': "st' = account tot (download_osm_data e box (output_path_of e sc dir loc)
          (emit (map Print out) (announced tot n i loc st)))"
    by auto
  have w: "n_sleeps [Print (Waiting API_DELAY), Sleep API_DELAY] = 1"
    "n_posts [Print (Waiting API_DELAY), Sleep API_DELAY] = 0"
    by (simp_all add: n_sleeps_def n_posts_def)
  show "n_posts (trace st') = n_posts (trace st) + 1"
    by (simp add: st' download_posts w)
  show "n_sleeps (trace st') = n_sleeps (trace st) + (if processed_count st + 1 < tot then 1 else 0)"
    by (simp add: st' download_quiet download_counters w)
  show "processed_count st' = processed_count st + 1"
    by (simp add: st' download_counters)
qed


subsection \<open>The inner loop\<close>

lemma process_locations_returns:
  "\<exists>st'. process_locations e tot sc dir n i locs st = Inr st'"
proof (induction locs arbitrary: i st)
  case Nil
  show ?case by simp
next
  case (Cons loc locs)
  obtain st1 where "process_location e tot sc dir n i loc st = Inr st1"
    using process_location_returns by blast
  with Cons [of "i + 1" st1] show ?case by simp
qed

lemma process_locations_counted:
  "process_locations e tot sc dir n i locs st = Inr st' \<Longrightarrow> counted e st \<Longrightarrow>
   counted e st' \<and> processed_count st' = processed_count st + length locs"
proof (induction locs arbitrary: i st)
  case Nil
  then show ?case by simp
next
  case (Cons loc locs)
  obtain st1 where 1: "process_location e tot sc dir n i loc st = Inr st1"
    using process_location_returns by blast
  with Cons.prems(1) have 2: "process_locations e tot sc dir n (i + 1) locs st1 = Inr st'"
    by simp
  from process_location_counted [OF 1 Cons.prems(2)]
  have "counted e st1" and "processed_count st1 = processed_count st + 1" by simp_all
  with Cons.IH [OF 2] show ?case by simp
qed

lemma process_locations_honours:
  "process_locations e tot sc dir n i locs st = Inr st' \<Longrightarrow> honours E st \<Longrightarrow> honours E st'"
proof (induction locs arbitrary: i st)
  case Nil
  then show ?case by simp
next
  case (Cons loc locs)
  obtain st1 where 1: "process_location e tot sc dir n i loc st = Inr st1"
    using process_location_returns by blast
  with Cons.prems(1) have 2: "process_locations e tot sc dir n (i + 1) locs st1 = Inr st'"
    by simp
  from process_location_honours [OF 1 Cons.prems(2)] Cons.IH [OF 2] show ?case by simp
qed

lemma drilled_step:
  assumes "drilled tot st"
    and "n_posts (trace st') = n_posts (trace st) + 1"
    and "n_sleeps (trace st') = n_sleeps (trace st) + (if processed_count st + 1 < tot then 1 else 0)"
    and "processed_count st' = processed_count st + 1"
  shows "drilled tot st'"
  using assms by (auto simp add: drilled_def min_def)

lemma process_locations_fresh:
  "process_locations e tot sc dir n i locs st = Inr st' \<Longrightarrow>
   fresh (map (output_path_of e sc dir) locs @ rest) st \<Longrightarrow> drilled tot st \<Longrightarrow>
   fresh rest st' \<and> drilled tot st'"
proof (induction locs arbitrary: i st)
  case Nil
  then show ?case by simp
next
  case (Cons loc locs)
  let ?p = "output_path_of e sc dir loc"
  obtain st1 where 1: "process_location e tot sc dir n i loc st = Inr st1"
    using process_location_returns by blast
  with Cons.prems(1) have 2: "process_locations e tot sc dir n (i + 1) locs st1 = Inr st'"
    by simp
  from Cons.prems(2) have p: "?p \<notin> existing st"
    and d: "distinct (map (output_path_of e sc dir) locs @ rest)"
    and np: "?p \<notin> set (map (output_path_of e sc dir) locs @ rest)"
    and ne: "\<forall>q \<in> set (map (output_path_of e sc dir) locs @ rest). q \<notin> existing st"
    by (simp_all add: fresh_def)
  from process_location_existing(2) [OF 1] have "existing st1 \<subseteq> insert ?p (existing st)" .
  with np ne have "\<forall>q \<in> set (map (output_path_of e sc dir) locs @ rest). q \<notin> existing st1"
    by blast
  with d have f: "fresh (map (output_path_of e sc dir) locs @ rest) st1"
    by (simp add: fresh_def)
  from Cons.prems(3) process_location_fresh [OF 1 p] have "drilled tot st1"
    by (rule drilled_step)
  with Cons.IH [OF 2 f] show ?case by simp
qed

subsection \<open>Directories\<close>

lemma makedirs_cases:
  "makedirs e d st = Inr st' \<Longrightarrow>
     makedirs_ok e d \<and> st' = emit [Makedirs d] (st\<lparr>existing := existing st \<union> set (ancestors d)\<rparr>)"
  by (auto simp add: makedirs_def split: if_splits)

lemma makedirs_returns: "makedirs_ok e d \<Longrightarrow> \<exists>st'. makedirs e d st = Inr st'"
  by (simp add: makedirs_def)

lemma quiet_event_counts [simp]:
  "n_posts [Makedirs d] = 0" "n_sleeps [Makedirs d] = 0" "n_skips [Makedirs d] = 0"
  "n_posts [Print (Processing_category c dir)] = 0"
  "n_sleeps [Print (Processing_category c dir)] = 0"
  "n_skips [Print (Processing_category c dir)] = 0"
  by (simp_all add: n_posts_def n_sleeps_def n_skips_def)

lemma makedirs_counted: "makedirs e d st = Inr st' \<Longrightarrow> counted e st \<Longrightarrow> counted e st'"
  by (drule makedirs_cases) (simp add: counted_def)

lemma makedirs_processed: "makedirs e d st = Inr st' \<Longrightarrow> processed_count st' = processed_count st"
  by (drule makedirs_cases) simp

lemma makedirs_honours: "makedirs e d st = Inr st' \<Longrightarrow> honours E st \<Longrightarrow> honours E st'"
  by (drule makedirs_cases) (auto simp add: honours_def)

lemma makedirs_drilled: "makedirs e d st = Inr st' \<Longrightarrow> drilled tot st \<Longrightarrow> drilled tot st'"
  by (drule makedirs_cases) (simp add: drilled_def)

lemma makedirs_existing:
  "makedirs e d st = Inr st' \<Longrightarrow> existing st' = existing st \<union> set (ancestors d)"
  by (drule makedirs_cases) simp

lemma ancestors_prefix: "p \<in> set (ancestors d) \<Longrightarrow> \<exists>zs. d = p @ zs"
proof -
  assume "p \<in> set (ancestors d)"
  then obtain k where "p = take k d" by (auto simp add: ancestors_def)
  then have "d = p @ drop k d" by simp
  then show ?thesis ..
qed

lemma category_line_counted:
  "counted e st \<Longrightarrow> counted e (emit [Print (Processing_category c dir)] st)"
  by (simp add: counted_def)

lemma category_line_honours:
  "honours E st \<Longrightarrow> honours E (emit [Print (Processing_category c dir)] st)"
  by (auto simp add: honours_def)

lemma category_line_drilled:
  "drilled tot st \<Longrightarrow> drilled tot (emit [Print (Processing_category c dir)] st)"
  by (simp add: drilled_def)

lemma category_line_fresh:
  "fresh ps st \<Longrightarrow> fresh ps (emit [Print (Processing_category c dir)] st)"
  by (simp add: fresh_def)


subsection \<open>The shape of the paths\<close>

lemma sanitize_nonempty: "sanitize_filename U s \<noteq> []"
  using unnamed_props(1) by (simp add: sanitize_filename_steps)

lemma unnamed_no_slash: "SLASH \<notin> set (lit ''unnamed'')"
  by (simp add: lit_unnamed SLASH_def)

lemma sanitize_no_slash: "SLASH \<notin> set (sanitize_filename U s)"
proof (cases "sanitize_steps U s = []")
  case True
  then show ?thesis using unnamed_no_slash by (simp add: sanitize_filename_steps)
next
  case False
  have "SLASH \<notin> set (sanitize_steps U s)"
  proof
    assume "SLASH \<in> set (sanitize_steps U s)"
    then have "\<not> is_separator SLASH" by (rule steps_chars(2))
    then show False by (simp add: is_separator_def)
  qed
  with False show ?thesis by (simp add: sanitize_filename_steps)
qed

lemma base_dir_shape: "OUTPUT_BASE_DIR \<noteq> []" "last OUTPUT_BASE_DIR \<noteq> SLASH"
  by (simp_all add: OUTPUT_BASE_DIR_def lit_def SLASH_def)

lemma path_join_plain:
  "a \<noteq> [] \<Longrightarrow> last a \<noteq> SLASH \<Longrightarrow> b \<noteq> [] \<Longrightarrow> hd b \<noteq> SLASH \<Longrightarrow> path_join a b = a @ [SLASH] @ b"
  by (simp add: path_join_def)

lemma sanitize_edges_no_slash:
  "hd (sanitize_filename U s) \<noteq> SLASH" "last (sanitize_filename U s) \<noteq> SLASH"
proof -
  have "hd (sanitize_filename U s) \<in> set (sanitize_filename U s)"
    "last (sanitize_filename U s) \<in> set (sanitize_filename U s)"
    using sanitize_nonempty [of U s] by simp_all
  with sanitize_no_slash [of U s]
  show "hd (sanitize_filename U s) \<noteq> SLASH" "last (sanitize_filename U s) \<noteq> SLASH"
    by metis+
qed

lemma category_dir_shape:
  "path_join OUTPUT_BASE_DIR (sanitize_filename U c) =
     OUTPUT_BASE_DIR @ [SLASH] @ sanitize_filename U c"
  using base_dir_shape sanitize_nonempty sanitize_edges_no_slash(1)
  by (rule path_join_plain)

lemma output_path_shape:
  "output_path_of e (sanitize_filename U c) (path_join OUTPUT_BASE_DIR (sanitize_filename U c)) loc =
     OUTPUT_BASE_DIR @ [SLASH] @ sanitize_filename U c @ [SLASH] @
       filename_of e (sanitize_filename U c) loc"
proof -
  let ?sc = "sanitize_filename U c"
  obtain lat lon name where loc: "loc = (lat, lon, name)" by (cases loc)
  from sanitize_nonempty [of U c] obtain x xs where sc: "?sc = x # xs" by (cases ?sc) auto
  have f: "filename_of e ?sc loc \<noteq> []" "hd (filename_of e ?sc loc) = hd ?sc"
    by (simp_all add: filename_of_def loc sc)
  have d: "OUTPUT_BASE_DIR @ [SLASH] @ ?sc \<noteq> []"
    "last (OUTPUT_BASE_DIR @ [SLASH] @ ?sc) = last ?sc"
    using sanitize_nonempty [of U c] by simp_all
  have "path_join (OUTPUT_BASE_DIR @ [SLASH] @ ?sc) (filename_of e ?sc loc) =
      (OUTPUT_BASE_DIR @ [SLASH] @ ?sc) @ [SLASH] @ filename_of e ?sc loc"
    using d(1) _ f(1)
  proof (rule path_join_plain)
    show "last (OUTPUT_BASE_DIR @ [SLASH] @ ?sc) \<noteq> SLASH"
      using d(2) sanitize_edges_no_slash(2) [of U c] by simp
    show "hd (filename_of e ?sc loc) \<noteq> SLASH"
      using f(2) sanitize_edges_no_slash(1) [of U c] by simp
  qed
  then show ?thesis
    by (simp add: output_path_of_def category_dir_shape)
qed

lemma output_path_shape2:
  "output_path_of e (sanitize_filename U c) (OUTPUT_BASE_DIR @ SLASH # sanitize_filename U c) loc =
     OUTPUT_BASE_DIR @ SLASH # sanitize_filename U c @ SLASH #
       filename_of e (sanitize_filename U c) loc"
  using output_path_shape [of e U c loc] by (simp add: category_dir_shape)

lemma output_path_not_dirlike:
  "\<not> dirlike U (output_path_of e (sanitize_filename U c)
       (path_join OUTPUT_BASE_DIR (sanitize_filename U c)) loc)"
proof
  assume "dirlike U (output_path_of e (sanitize_filename U c)
       (path_join OUTPUT_BASE_DIR (sanitize_filename U c)) loc)"
  then obtain c' zs where
    "OUTPUT_BASE_DIR @ [SLASH] @ sanitize_filename U c' =
      (OUTPUT_BASE_DIR @ [SLASH] @ sanitize_filename U c @ [SLASH] @
         filename_of e (sanitize_filename U c) loc) @ zs"
    by (auto simp add: dirlike_def output_path_shape2 category_dir_shape)
  then have "sanitize_filename U c' =
      sanitize_filename U c @ [SLASH] @ filename_of e (sanitize_filename U c) loc @ zs"
    by simp
  then have "SLASH \<in> set (sanitize_filename U c')" by simp
  with sanitize_no_slash show False by blast
qed

lemma ancestors_dirlike:
  "p \<in> set (ancestors OUTPUT_BASE_DIR) \<Longrightarrow> dirlike U p"
  "p \<in> set (ancestors (path_join OUTPUT_BASE_DIR (sanitize_filename U c))) \<Longrightarrow> dirlike U p"
proof -
  assume "p \<in> set (ancestors OUTPUT_BASE_DIR)"
  then obtain zs where "OUTPUT_BASE_DIR = p @ zs" using ancestors_prefix by blast
  then have "path_join OUTPUT_BASE_DIR (sanitize_filename U []) =
      p @ (zs @ [SLASH] @ sanitize_filename U [])"
    by (simp add: category_dir_shape)
  then show "dirlike U p" unfolding dirlike_def by blast
next
  assume "p \<in> set (ancestors (path_join OUTPUT_BASE_DIR (sanitize_filename U c)))"
  then obtain zs where "path_join OUTPUT_BASE_DIR (sanitize_filename U c) = p @ zs"
    using ancestors_prefix by blast
  then show "dirlike U p" unfolding dirlike_def by blast
qed

lemma output_paths_Cons:
  "output_paths e ((c, locs) # rest) =
     map (output_path_of e (sanitize_filename (unicode_alnum e) c)
            (path_join OUTPUT_BASE_DIR (sanitize_filename (unicode_alnum e) c))) locs @
     output_paths e rest"
  by (simp add: output_paths_def)

lemma output_paths_Nil: "output_paths e [] = []"
  by (simp add: output_paths_def)

lemma output_paths_not_dirlike:
  "p \<in> set (output_paths e scenes) \<Longrightarrow> \<not> dirlike (unicode_alnum e) p"
proof (induction scenes)
  case Nil
  then show ?case by (simp add: output_paths_Nil)
next
  case (Cons a scenes)
  obtain c locs where a: "a = (c, locs)" by (cases a)
  from Cons show ?case
    by (auto simp add: a output_paths_Cons output_path_not_dirlike)
qed

lemma length_output_paths: "length (output_paths e scenes) = total_locations scenes"
  by (induction scenes) (auto simp add: output_paths_def total_locations_def)


subsection \<open>The outer loop\<close>

lemma total_locations_Cons:
  "total_locations ((c, locs) # rest) = length locs + total_locations rest"
  by (simp add: total_locations_def)

lemma process_categories_Cons:
  "process_categories e tot ((c, locs) # rest) st = Inr st' \<Longrightarrow>
   \<exists>st1 st2.
     makedirs e (path_join OUTPUT_BASE_DIR (sanitize_filename (unicode_alnum e) c)) st = Inr st1 \<and>
     process_locations e tot (sanitize_filename (unicode_alnum e) c)
       (path_join OUTPUT_BASE_DIR (sanitize_filename (unicode_alnum e) c)) (length locs) 0 locs
       (emit [Print (Processing_category c
                (path_join OUTPUT_BASE_DIR (sanitize_filename (unicode_alnum e) c)))] st1) = Inr st2 \<and>
     process_categories e tot rest st2 = Inr st'"
  by (simp add: Let_def split: sum.splits)

lemma process_categories_returns:
  "\<forall>d. makedirs_ok e d \<Longrightarrow> \<exists>st'. process_categories e tot scenes st = Inr st'"
proof (induction scenes arbitrary: st)
  case Nil
  show ?case by simp
next
  case (Cons a scenes)
  obtain c locs where a: "a = (c, locs)" by (cases a)
  let ?sc = "sanitize_filename (unicode_alnum e) c"
  let ?dir = "path_join OUTPUT_BASE_DIR ?sc"
  from Cons.prems obtain st1 where 1: "makedirs e ?dir st = Inr st1"
    using makedirs_returns by blast
  obtain st2 where 2: "process_locations e tot ?sc ?dir (length locs) 0 locs
      (emit [Print (Processing_category c ?dir)] st1) = Inr st2"
    using process_locations_returns by blast
  from Cons.IH [OF Cons.prems, of st2] obtain st' where "process_categories e tot scenes st2 = Inr st'"
    by blast
  with 1 2 show ?case by (simp add: a Let_def)
qed

lemma process_categories_counted:
  "process_categories e tot scenes st = Inr st' \<Longrightarrow> counted e st \<Longrightarrow>
   counted e st' \<and> processed_count st' = processed_count st + total_locations scenes"
proof (induction scenes arbitrary: st)
  case Nil
  then show ?case by (simp add: total_locations_def)
next
  case (Cons a scenes)
  obtain c locs where a: "a = (c, locs)" by (cases a)
  let ?sc = "sanitize_filename (unicode_alnum e) c"
  let ?dir = "path_join OUTPUT_BASE_DIR ?sc"
  from Cons.prems(1) [unfolded a, THEN process_categories_Cons]
  obtain st1 st2 where 1: "makedirs e ?dir st = Inr st1"
    and 2: "process_locations e tot ?sc ?dir (length locs) 0 locs
      (emit [Print (Processing_category c ?dir)] st1) = Inr st2"
    and 3: "process_categories e tot scenes st2 = Inr st'"
    by blast
  from makedirs_counted [OF 1 Cons.prems(2)]
  have "counted e (emit [Print (Processing_category c ?dir)] st1)"
    by (rule category_line_counted)
  from process_locations_counted [OF 2 this] makedirs_processed [OF 1]
  have "counted e st2" and "processed_count st2 = processed_count st + length locs"
    by simp_all
  with Cons.IH [OF 3] show ?case
    by (simp add: a total_locations_Cons)
qed

lemma process_categories_honours:
  "process_categories e tot scenes st = Inr st' \<Longrightarrow> honours E st \<Longrightarrow> honours E st'"
proof (induction scenes arbitrary: st)
  case Nil
  then show ?case by simp
next
  case (Cons a scenes)
  obtain c locs where a: "a = (c, locs)" by (cases a)
  let ?sc = "sanitize_filename (unicode_alnum e) c"
  let ?dir = "path_join OUTPUT_BASE_DIR ?sc"
  from Cons.prems(1) [unfolded a, THEN process_categories_Cons]
  obtain st1 st2 where 1: "makedirs e ?dir st = Inr st1"
    and 2: "process_locations e tot ?sc ?dir (length locs) 0 locs
      (emit [Print (Processing_category c ?dir)] st1) = Inr st2"
    and 3: "process_categories e tot scenes st2 = Inr st'"
    by blast
  from makedirs_honours [OF 1 Cons.prems(2)]
  have "honours E (emit [Print (Processing_category c ?dir)] st1)"
    by (rule category_line_honours)
  from process_locations_honours [OF 2 this] have "honours E st2" .
  with Cons.IH [OF 3] show ?case by simp
qed

lemma fresh_after_makedirs:
  assumes "makedirs e d st = Inr st1" and "fresh ps st"
    and "\<forall>p \<in> set ps. \<not> dirlike U p" and "\<forall>p \<in> set (ancestors d). dirlike U p"
  shows "fresh ps st1"
  using assms(2-4) by (auto simp add: fresh_def makedirs_existing [OF assms(1)])

lemma process_categories_fresh:
  "process_categories e tot scenes st = Inr st' \<Longrightarrow> fresh (output_paths e scenes) st \<Longrightarrow>
   drilled tot st \<Longrightarrow> drilled tot st'"
proof (induction scenes arbitrary: st)
  case Nil
  then show ?case by simp
next
  case (Cons a scenes)
  obtain c locs where a: "a = (c, locs)" by (cases a)
  let ?sc = "sanitize_filename (unicode_alnum e) c"
  let ?dir = "path_join OUTPUT_BASE_DIR ?sc"
  from Cons.prems(1) [unfolded a, THEN process_categories_Cons]
  obtain st1 st2 where 1: "makedirs e ?dir st = Inr st1"
    and 2: "process_locations e tot ?sc ?dir (length locs) 0 locs
      (emit [Print (Processing_category c ?dir)] st1) = Inr st2"
    and 3: "process_categories e tot scenes st2 = Inr st'"
    by blast
  have nd: "\<forall>p \<in> set (output_paths e (a # scenes)). \<not> dirlike (unicode_alnum e) p"
    using output_paths_not_dirlike by blast
  have anc: "\<forall>p \<in> set (ancestors ?dir). dirlike (unicode_alnum e) p"
    using ancestors_dirlike(2) by blast
  from fresh_after_makedirs [OF 1 Cons.prems(2) nd anc]
  have "fresh (output_paths e (a # scenes)) (emit [Print (Processing_category c ?dir)] st1)"
    by (rule category_line_fresh)
  then have f: "fresh (map (output_path_of e ?sc ?dir) locs @ output_paths e scenes)
      (emit [Print (Processing_category c ?dir)] st1)"
    by (simp add: a output_paths_Cons)
  from makedirs_drilled [OF 1 Cons.prems(3)]
  have d: "drilled tot (emit [Print (Processing_category c ?dir)] st1)"
    by (rule category_line_drilled)
  from process_locations_fresh [OF 2 f d]
  have "fresh (output_paths e scenes) st2" and "drilled tot st2" by simp_all
  with Cons.IH [OF 3] show ?case by simp
qed

subsection \<open>The main block\<close>

lemma main_parts:
  "main e scenes E = Inr st \<Longrightarrow>
   \<exists>st0 st1. makedirs e OUTPUT_BASE_DIR (initial E) = Inr st0 \<and>
     process_categories e (total_locations scenes) scenes st0 = Inr st1 \<and>
     st = emit (summary st1) st1"
  by (auto simp add: main_def initial_def Let_def split: sum.splits)

lemma summary_counts [simp]:
  "n_posts (summary st) = 0" "n_sleeps (summary st) = 0" "n_skips (summary st) = 0"
  by (simp_all add: summary_def n_posts_def n_sleeps_def n_skips_def)

lemma summary_emit [simp]: "summary (emit es st) = summary st"
  by (simp add: summary_def)

lemma initial_invariants:
  "counted e (initial E)" "honours E (initial E)" "drilled tot (initial E)"
  by (simp_all add: initial_def counted_def honours_def drilled_def n_posts_def n_sleeps_def
      n_skips_def failed_requests_def)

lemma main_returns:
  "\<forall>d. makedirs_ok e d \<Longrightarrow> \<exists>st. main e scenes E = Inr st"
proof -
  assume ok: "\<forall>d. makedirs_ok e d"
  then obtain st0 where 0: "makedirs e OUTPUT_BASE_DIR (initial E) = Inr st0"
    using makedirs_returns by blast
  from process_categories_returns [OF ok] obtain st1
    where "process_categories e (total_locations scenes) scenes st0 = Inr st1"
    by blast
  with 0 show ?thesis by (simp add: main_def initial_def Let_def)
qed

lemma main_counted:
  assumes "main e scenes E = Inr st"
  shows "counted e st" and "processed_count st = total_locations scenes"
proof -
  from main_parts [OF assms] obtain st0 st1
    where 0: "makedirs e OUTPUT_BASE_DIR (initial E) = Inr st0"
      and 1: "process_categories e (total_locations scenes) scenes st0 = Inr st1"
      and st: "st = emit (summary st1) st1"
    by blast
  from makedirs_counted [OF 0 initial_invariants(1)] have "counted e st0" .
  from process_categories_counted [OF 1 this] makedirs_processed [OF 0]
  have "counted e st1" and "processed_count st1 = total_locations scenes"
    by (simp_all add: initial_def)
  then show "counted e st" and "processed_count st = total_locations scenes"
    by (simp_all add: st counted_def)
qed

lemma main_honours:
  assumes "main e scenes E = Inr st"
  shows "honours E st"
proof -
  from main_parts [OF assms] obtain st0 st1
    where 0: "makedirs e OUTPUT_BASE_DIR (initial E) = Inr st0"
      and 1: "process_categories e (total_locations scenes) scenes st0 = Inr st1"
      and st: "st = emit (summary st1) st1"
    by blast
  from makedirs_honours [OF 0 initial_invariants(2)] have "honours E st0" .
  from process_categories_honours [OF 1 this] have "honours E st1" .
  then show ?thesis
    by (auto simp add: st honours_def summary_def)
qed

lemma main_drilled:
  assumes "main e scenes E = Inr st"
    and "distinct (output_paths e scenes)" and "\<forall>p \<in> set (output_paths e scenes). p \<notin> E"
  shows "drilled (total_locations scenes) st"
proof -
  from main_parts [OF assms(1)] obtain st0 st1
    where 0: "makedirs e OUTPUT_BASE_DIR (initial E) = Inr st0"
      and 1: "process_categories e (total_locations scenes) scenes st0 = Inr st1"
      and st: "st = emit (summary st1) st1"
    by blast
  from assms(2,3) have "fresh (output_paths e scenes) (initial E)"
    by (simp add: fresh_def initial_def)
  moreover have "\<forall>p \<in> set (output_paths e scenes). \<not> dirlike (unicode_alnum e) p"
    using output_paths_not_dirlike by blast
  moreover have "\<forall>p \<in> set (ancestors OUTPUT_BASE_DIR). dirlike (unicode_alnum e) p"
    using ancestors_dirlike(1) by blast
  ultimately have f: "fresh (output_paths e scenes) st0"
    by (rule fresh_after_makedirs [OF 0])
  from makedirs_drilled [OF 0 initial_invariants(3)]
  have "drilled (total_locations scenes) st0" .
  from process_categories_fresh [OF 1 f this] have "drilled (total_locations scenes) st1" .
  then show ?thesis by (simp add: st drilled_def)
qed

lemma main_summary:
  "main e scenes E = Inr st \<Longrightarrow> \<exists>pre. trace st = pre @ summary st"
  by (drule main_parts) auto


subsection \<open>Saved responses are written\<close>

lemma download_saved:
  "respond e (n_posts (trace st)) = Saved \<Longrightarrow>
   Write_file p \<in> set (trace (snd (download_osm_data e box p st)))"
  by (cases box) (simp add: download_osm_data_def Let_def)

lemma process_location_extends:
  assumes "process_location e tot sc dir n i loc st = Inr st'"
  shows "set (trace st) \<subseteq> set (trace st')"
proof (cases "output_path_of e sc dir loc \<in> existing st")
  case True
  from assms process_location_skip [OF True, of tot n i] show ?thesis
    by (cases loc) (auto simp add: announced_def)
next
  case False
  from process_location_attempt [OF False, of tot n i] assms
  obtain box out where st': "st' = account tot (download_osm_data e box (output_path_of e sc dir loc)
          (emit (map Print out) (announced tot n i loc st)))"
    by auto
  define s2 where "s2 = emit (map Print out) (announced tot n i loc st)"
  have "set (trace st) \<subseteq> set (trace s2)"
    by (cases loc) (auto simp add: s2_def announced_def)
  moreover obtain es where "trace (snd (download_osm_data e box (output_path_of e sc dir loc) s2)) =
      trace s2 @ es"
    using download_extends by blast
  ultimately show ?thesis
    by (auto simp add: st' s2_def)
qed

lemma process_location_saved:
  assumes "process_location e tot sc dir n i loc st = Inr st'"
    and "output_path_of e sc dir loc \<notin> existing st"
    and "respond e (n_posts (trace st)) = Saved"
  shows "Write_file (output_path_of e sc dir loc) \<in> set (trace st')"
proof -
  from process_location_attempt [OF assms(2), of tot n i] assms(1)
  obtain box out where st': "st' = account tot (download_osm_data e box (output_path_of e sc dir loc)
          (emit (map Print out) (announced tot n i loc st)))"
    by auto
  define s2 where "s2 = emit (map Print out) (announced tot n i loc st)"
  have "n_posts (trace s2) = n_posts (trace st)" by (simp add: s2_def)
  with assms(3) have "respond e (n_posts (trace s2)) = Saved" by simp
  then have "Write_file (output_path_of e sc dir loc) \<in>
      set (trace (snd (download_osm_data e box (output_path_of e sc dir loc) s2)))"
    by (rule download_saved)
  then show ?thesis by (simp add: st' s2_def)
qed

lemma fresh_step:
  assumes "process_location e tot sc dir n i loc st = Inr st1"
    and "fresh (output_path_of e sc dir loc # ps) st"
  shows "fresh ps st1"
proof -
  from process_location_existing(2) [OF assms(1)]
  have "existing st1 \<subseteq> insert (output_path_of e sc dir loc) (existing st)" .
  with assms(2) show ?thesis by (auto simp add: fresh_def)
qed

lemma process_locations_written:
  "process_locations e tot sc dir n i locs st = Inr st' \<Longrightarrow>
   fresh (map (output_path_of e sc dir) locs @ rest) st \<Longrightarrow> \<forall>j. respond e j = Saved \<Longrightarrow>
   (\<forall>p \<in> set (map (output_path_of e sc dir) locs). Write_file p \<in> set (trace st')) \<and>
   set (trace st) \<subseteq> set (trace st') \<and> fresh rest st'"
proof (induction locs arbitrary: i st)
  case Nil
  then show ?case by simp
next
  case (Cons loc locs)
  let ?p = "output_path_of e sc dir loc"
  obtain st1 where 1: "process_location e tot sc dir n i loc st = Inr st1"
    using process_location_returns by blast
  with Cons.prems(1) have 2: "process_locations e tot sc dir n (i + 1) locs st1 = Inr st'"
    by simp
  from Cons.prems(2) have p: "?p \<notin> existing st" by (simp add: fresh_def)
  from Cons.prems(2) have "fresh (?p # map (output_path_of e sc dir) locs @ rest) st" by simp
  with 1 have f: "fresh (map (output_path_of e sc dir) locs @ rest) st1" by (rule fresh_step)
  from Cons.prems(3) have "respond e (n_posts (trace st)) = Saved" by simp
  with 1 p have w: "Write_file ?p \<in> set (trace st1)" by (rule process_location_saved)
  from process_location_extends [OF 1] have m: "set (trace st) \<subseteq> set (trace st1)" .
  from Cons.IH [OF 2 f Cons.prems(3)] w m show ?case by auto
qed

lemma process_categories_written:
  "process_categories e tot scenes st = Inr st' \<Longrightarrow> fresh (output_paths e scenes) st \<Longrightarrow>
   \<forall>j. respond e j = Saved \<Longrightarrow>
   (\<forall>p \<in> set (output_paths e scenes). Write_file p \<in> set (trace st')) \<and>
   set (trace st) \<subseteq> set (trace st')"
proof (induction scenes arbitrary: st)
  case Nil
  then show ?case by (simp add: output_paths_Nil)
next
  case (Cons a scenes)
  obtain c locs where a: "a = (c, locs)" by (cases a)
  let ?sc = "sanitize_filename (unicode_alnum e) c"
  let ?dir = "path_join OUTPUT_BASE_DIR ?sc"
  from Cons.prems(1) [unfolded a, THEN process_categories_Cons]
  obtain st1 st2 where 1: "makedirs e ?dir st = Inr st1"
    and 2: "process_locations e tot ?sc ?dir (length locs) 0 locs
      (emit [Print (Processing_category c ?dir)] st1) = Inr st2"
    and 3: "process_categories e tot scenes st2 = Inr st'"
    by blast
  have nd: "\<forall>p \<in> set (output_paths e (a # scenes)). \<not> dirlike (unicode_alnum e) p"
    using output_paths_not_dirlike by blast
  have anc: "\<forall>p \<in> set (ancestors ?dir). dirlike (unicode_alnum e) p"
    using ancestors_dirlike(2) by blast
  from fresh_after_makedirs [OF 1 Cons.prems(2) nd anc]
  have "fresh (output_paths e (a # scenes)) (emit [Print (Processing_category c ?dir)] st1)"
    by (rule category_line_fresh)
  then have f: "fresh (map (output_path_of e ?sc ?dir) locs @ output_paths e scenes)
      (emit [Print (Processing_category c ?dir)] st1)"
    by (simp add: a output_paths_Cons)
  from process_locations_written [OF 2 f Cons.prems(3)]
  have w: "\<forall>p \<in> set (map (output_path_of e ?sc ?dir) locs). Write_file p \<in> set (trace st2)"
    and m: "set (trace (emit [Print (Processing_category c ?dir)] st1)) \<subseteq> set (trace st2)"
    and f2: "fresh (output_paths e scenes) st2"
    by simp_all
  from makedirs_cases [OF 1] have "set (trace st) \<subseteq> set (trace st1)" by auto
  with m have m1: "set (trace st) \<subseteq> set (trace st2)" by auto
  from Cons.IH [OF 3 f2 Cons.prems(3)]
  have w2: "\<forall>p \<in> set (output_paths e scenes). Write_file p \<in> set (trace st')"
    and m2: "set (trace st2) \<subseteq> set (trace st')"
    by simp_all
  from w w2 m1 m2 show ?case
    by (auto simp add: a output_paths_Cons)
qed

lemma main_written:
  assumes "main e scenes E = Inr st"
    and "distinct (output_paths e scenes)" and "\<forall>p \<in> set (output_paths e scenes). p \<notin> E"
    and "\<forall>j. respond e j = Saved"
  shows "\<forall>p \<in> set (output_paths e scenes). Write_file p \<in> set (trace st)"
proof -
  from main_parts [OF assms(1)] obtain st0 st1
    where 0: "makedirs e OUTPUT_BASE_DIR (initial E) = Inr st0"
      and 1: "process_categories e (total_locations scenes) scenes st0 = Inr st1"
      and st: "st = emit (summary st1) st1"
    by blast
  from assms(2,3) have "fresh (output_paths e scenes) (initial E)"
    by (simp add: fresh_def initial_def)
  moreover have "\<forall>p \<in> set (output_paths e scenes). \<not> dirlike (unicode_alnum e) p"
    using output_paths_not_dirlike by blast
  moreover have "\<forall>p \<in> set (ancestors OUTPUT_BASE_DIR). dirlike (unicode_alnum e) p"
    using ancestors_dirlike(1) by blast
  ultimately have f: "fresh (output_paths e scenes) st0"
    by (rule fresh_after_makedirs [OF 0])
  from process_categories_written [OF 1 f assms(4)] show ?thesis
    by (simp add: st)
qed

subsection \<open>Counters, pauses and skips of one location\<close>


lemma process_location_tally:
  assumes "process_location e tot sc dir n i loc st = Inr st'"
  shows "processed_count st' = processed_count st + 1"
    and "success_count st' + failed_count st' = success_count st + failed_count st + 1"
    and "output_path_of e sc dir loc \<in> existing st \<Longrightarrow>
           success_count st' = success_count st + 1 \<and> failed_count st' = failed_count st"
proof -
  have "processed_count st' = processed_count st + 1 \<and>
      success_count st' + failed_count st' = success_count st + failed_count st + 1 \<and>
      (output_path_of e sc dir loc \<in> existing st \<longrightarrow>
         success_count st' = success_count st + 1 \<and> failed_count st' = failed_count st)"
  proof (cases "output_path_of e sc dir loc \<in> existing st")
    case True
    from assms process_location_skip [OF True, of tot n i] show ?thesis by auto
  next
    case False
    from process_location_attempt [OF False, of tot n i] assms
    obtain box out where "st' = account tot (download_osm_data e box (output_path_of e sc dir loc)
            (emit (map Print out) (announced tot n i loc st)))"
      by auto
    with False show ?thesis by (simp add: download_counters)
  qed
  then show "processed_count st' = processed_count st + 1"
    and "success_count st' + failed_count st' = success_count st + failed_count st + 1"
    and "output_path_of e sc dir loc \<in> existing st \<Longrightarrow>
           success_count st' = success_count st + 1 \<and> failed_count st' = failed_count st"
    by simp_all
qed

lemma process_location_pause:
  assumes "output_path_of e sc dir loc \<notin> existing st"
  shows "\<exists>st' es. process_location e tot sc dir n i loc st = Inr st' \<and>
     trace st' = trace st @ es @
       (if processed_count st + 1 < tot then [Print (Waiting API_DELAY), Sleep API_DELAY] else []) \<and>
     n_posts es = 1 \<and> n_sleeps es = 0"
proof -
  from process_location_attempt [OF assms, of tot n i]
  obtain box out where pl: "process_location e tot sc dir n i loc st =
      Inr (account tot (download_osm_data e box (output_path_of e sc dir loc)
            (emit (map Print out) (announced tot n i loc st))))"
    by auto
  define s2 where "s2 = emit (map Print out) (announced tot n i loc st)"
  let ?d = "download_osm_data e box (output_path_of e sc dir loc) s2"
  obtain es2 where s2: "trace s2 = trace st @ es2" "n_posts es2 = 0" "n_sleeps es2 = 0"
    by (cases loc) (simp add: s2_def announced_def n_posts_def n_sleeps_def)
  obtain es3 where d: "trace (snd ?d) = trace s2 @ es3"
    using download_extends by blast
  have "n_posts (trace (snd ?d)) = n_posts (trace s2) + 1"
    "n_sleeps (trace (snd ?d)) = n_sleeps (trace s2)"
    by (simp_all add: download_posts download_quiet)
  with d have es3: "n_posts es3 = 1" "n_sleeps es3 = 0" by simp_all
  have "trace (account tot ?d) = trace st @ (es2 @ es3) @
       (if processed_count st + 1 < tot then [Print (Waiting API_DELAY), Sleep API_DELAY] else [])"
    by (simp add: d s2 download_counters) (simp add: s2_def)
  moreover have "n_posts (es2 @ es3) = 1" "n_sleeps (es2 @ es3) = 0"
    using s2 es3 by simp_all
  ultimately show ?thesis
    using pl unfolding s2_def by blast
qed

lemma process_location_skips:
  assumes "process_location e tot sc dir n i loc st = Inr st'"
  shows "n_skips (trace st') =
     n_skips (trace st) + (if output_path_of e sc dir loc \<in> existing st then 1 else 0)"
proof (cases "output_path_of e sc dir loc \<in> existing st")
  case True
  have "n_skips [Print (Already_exists (filename_of e sc loc))] = 1"
    by (simp add: n_skips_def)
  with assms process_location_skip [OF True, of tot n i] True show ?thesis by auto
next
  case False
  from process_location_attempt [OF False, of tot n i] assms
  obtain box out where out: "filter is_skip (map Print out) = []"
    and st': "st' = account tot (download_osm_data e box (output_path_of e sc dir loc)
            (emit (map Print out) (announced tot n i loc st)))"
    by auto
  from out have "n_skips (map Print out) = 0" by (simp add: n_skips_def)
  moreover have "n_skips [Print (Waiting API_DELAY), Sleep API_DELAY] = 0"
    by (simp add: n_skips_def)
  ultimately show ?thesis
    using False by (simp add: st' download_quiet)
qed

lemma process_location_tidy:
  assumes "process_location e tot sc dir n i loc st = Inr st'" and "tidy tot st"
  shows "tidy tot st'"
proof (cases "output_path_of e sc dir loc \<in> existing st")
  case True
  with process_location_skips [OF assms(1)] show ?thesis by (simp add: tidy_def)
next
  case False
  with process_location_skips [OF assms(1)]
  have eq: "n_skips (trace st') = n_skips (trace st)" by simp
  show ?thesis
    unfolding tidy_def
  proof
    assume "n_skips (trace st') = 0"
    with eq assms(2) have "drilled tot st" by (simp add: tidy_def)
    from this process_location_fresh [OF assms(1) False] show "drilled tot st'"
      by (rule drilled_step)
  qed
qed

lemma process_locations_tidy:
  "process_locations e tot sc dir n i locs st = Inr st' \<Longrightarrow> tidy tot st \<Longrightarrow> tidy tot st'"
proof (induction locs arbitrary: i st)
  case Nil
  then show ?case by simp
next
  case (Cons loc locs)
  obtain st1 where 1: "process_location e tot sc dir n i loc st = Inr st1"
    using process_location_returns by blast
  with Cons.prems(1) have 2: "process_locations e tot sc dir n (i + 1) locs st1 = Inr st'"
    by simp
  from process_location_tidy [OF 1 Cons.prems(2)] Cons.IH [OF 2] show ?case by simp
qed

lemma makedirs_tidy: "makedirs e d st = Inr st' \<Longrightarrow> tidy tot st \<Longrightarrow> tidy tot st'"
  by (drule makedirs_cases) (simp add: tidy_def drilled_def)

lemma category_line_tidy:
  "tidy tot st \<Longrightarrow> tidy tot (emit [Print (Processing_category c dir)] st)"
  by (simp add: tidy_def drilled_def)

lemma process_categories_tidy:
  "process_categories e tot scenes st = Inr st' \<Longrightarrow> tidy tot st \<Longrightarrow> tidy tot st'"
proof (induction scenes arbitrary: st)
  case Nil
  then show ?case by simp
next
  case (Cons a scenes)
  obtain c locs where a: "a = (c, locs)" by (cases a)
  let ?sc = "sanitize_filename (unicode_alnum e) c"
  let ?dir = "path_join OUTPUT_BASE_DIR ?sc"
  from Cons.prems(1) [unfolded a, THEN process_categories_Cons]
  obtain st1 st2 where 1: "makedirs e ?dir st = Inr st1"
    and 2: "process_locations e tot ?sc ?dir (length locs) 0 locs
      (emit [Print (Processing_category c ?dir)] st1) = Inr st2"
    and 3: "process_categories e tot scenes st2 = Inr st'"
    by blast
  from makedirs_tidy [OF 1 Cons.prems(2)]
  have "tidy tot (emit [Print (Processing_category c ?dir)] st1)"
    by (rule category_line_tidy)
  from process_locations_tidy [OF 2 this] have "tidy tot st2" .
  with Cons.IH [OF 3] show ?case by simp
qed

lemma main_tidy:
  assumes "main e scenes E = Inr st"
  shows "tidy (total_locations scenes) st"
proof -
  from main_parts [OF assms] obtain st0 st1
    where 0: "makedirs e OUTPUT_BASE_DIR (initial E) = Inr st0"
      and 1: "process_categories e (total_locations scenes) scenes st0 = Inr st1"
      and st: "st = emit (summary st1) st1"
    by blast
  have "tidy (total_locations scenes) (initial E)"
    using initial_invariants(3) by (simp add: tidy_def)
  from makedirs_tidy [OF 0 this] have "tidy (total_locations scenes) st0" .
  from process_categories_tidy [OF 1 this] have "tidy (total_locations scenes) st1" .
  then show ?thesis by (simp add: st tidy_def drilled_def)
qed

section \<open>The claims about the driver\<close>

lemma demo_sanitize:
  "sanitize_filename latin1_alnum (lit ''Sea'') = lit ''Sea''"
  "sanitize_filename latin1_alnum (lit ''A'') = lit ''A''"
  "sanitize_filename latin1_alnum (lit ''B'') = lit ''B''"
  by (simp_all add: sanitize_filename_def py_strip_def Let_def lit_def is_kept_def is_word_def
        py_isalnum_def ascii_alnum_def is_separator_def py_isspace_def is_edge_def
        UNDERSCORE_def HYPHEN_def PERIOD_def SLASH_def BACKSLASH_def COLON_def)

lemma demo_paths:
  "output_paths demo_env demo_scenes =
     [lit ''appdata/map/osm/Sea/Sea_A_0.0000_0.0000.osm'',
      lit ''appdata/map/osm/Sea/Sea_B_0.0000_1.0000.osm'']"
  by (simp add: output_paths_def demo_env_def demo_scenes_def demo_sanitize output_path_of_def
      filename_of_def path_join_def OUTPUT_BASE_DIR_def)
     (simp add: lit_def SLASH_def UNDERSCORE_def)

lemma saving_path_of: "output_path_of saving_env = output_path_of demo_env"
  by (intro ext) (simp add: output_path_of_def filename_of_def saving_env_def)

lemma saving_paths: "output_paths saving_env demo_scenes = output_paths demo_env demo_scenes"
  by (simp add: output_paths_def saving_path_of) (simp add: saving_env_def)

lemma demo_distinct: "distinct (output_paths demo_env demo_scenes)"
  by (simp add: demo_paths lit_def)

lemma demo_total: "total_locations demo_scenes = 2"
  by (simp add: total_locations_def demo_scenes_def)

lemma demo_makedirs: "\<forall>d. makedirs_ok demo_env d" "\<forall>d. makedirs_ok saving_env d"
  by (simp_all add: demo_env_def saving_env_def)

lemma demo_failed: "failed_requests demo_env 2 = [0]"
proof -
  have "[0..<2] = [0, Suc 0]" by (simp add: numeral_2_eq_2)
  then show ?thesis by (simp add: failed_requests_def demo_env_def)
qed

text \<open>
  Claim C1. A location whose output path exists when the driver reaches it is skipped:
  \<open>process_location\<close> returns normally, the state differs from the one before only in
  \<open>processed_count\<close> and \<open>success_count\<close>, each one higher, and in two printed lines (the
  progress line and the line that the file exists), so no request is sent, nothing is
  written and no pause is made. Hence, when a second run starts from the paths that
  exist after a first run, it sends no request for a path whose file the first run wrote,
  whatever the answers of the network in either run.
\<close>

theorem skip_existing_file:
  "(output_path_of e sc dir (lat, lon, name) \<in> existing st \<longrightarrow>
      process_location e tot sc dir n i (lat, lon, name) st =
        Inr (st\<lparr>processed_count := processed_count st + 1,
                 success_count := success_count st + 1,
                 trace := trace st @
                   [Print (Processing_location (i + 1) n (processed_count st + 1) tot name lat lon),
                    Print (Already_exists (filename_of e sc (lat, lon, name)))]\<rparr>)) \<and>
   (main e scenes E = Inr st1 \<and> main e' scenes (existing st1) = Inr st2 \<and>
      Write_file p \<in> set (trace st1) \<longrightarrow> (\<forall>b. Post p b \<notin> set (trace st2)))"
proof (intro conjI impI)
  assume "output_path_of e sc dir (lat, lon, name) \<in> existing st"
  then show "process_location e tot sc dir n i (lat, lon, name) st =
        Inr (st\<lparr>processed_count := processed_count st + 1,
                 success_count := success_count st + 1,
                 trace := trace st @
                   [Print (Processing_location (i + 1) n (processed_count st + 1) tot name lat lon),
                    Print (Already_exists (filename_of e sc (lat, lon, name)))]\<rparr>)"
    by (simp add: process_location_skip announced_def emit_def)
next
  assume a: "main e scenes E = Inr st1 \<and> main e' scenes (existing st1) = Inr st2 \<and>
      Write_file p \<in> set (trace st1)"
  then have 1: "main e scenes E = Inr st1" and 2: "main e' scenes (existing st1) = Inr st2"
    by simp_all
  from main_honours [OF 1] main_honours [OF 2]
  have "honours E st1" and "honours (existing st1) st2" .
  then have "\<forall>q. Write_file q \<in> set (trace st1) \<longrightarrow> q \<in> existing st1"
    and "\<forall>q b. Post q b \<in> set (trace st2) \<longrightarrow> q \<notin> existing st1"
    unfolding honours_def by blast+
  with a show "\<forall>b. Post p b \<notin> set (trace st2)"
    by blast
qed

theorem skip_existing_file_witness:
  "(\<exists>st st'. output_path_of demo_env (lit ''Sea'') (lit ''d'') (0, 0, lit ''A'') \<in> existing st \<and>
      process_location demo_env 2 (lit ''Sea'') (lit ''d'') 2 0 (0, 0, lit ''A'') st = Inr st' \<and>
      processed_count st' = processed_count st + 1 \<and>
      success_count st' = success_count st + 1 \<and> failed_count st' = failed_count st \<and>
      existing st' = existing st \<and> n_posts (trace st') = n_posts (trace st)) \<and>
   (\<exists>st1 st2. main saving_env demo_scenes {} = Inr st1 \<and>
      main saving_env demo_scenes (existing st1) = Inr st2 \<and>
      Write_file (lit ''appdata/map/osm/Sea/Sea_B_0.0000_1.0000.osm'') \<in> set (trace st1) \<and>
      (\<forall>b. Post (lit ''appdata/map/osm/Sea/Sea_B_0.0000_1.0000.osm'') b \<notin> set (trace st2)))"
proof
  let ?p = "output_path_of demo_env (lit ''Sea'') (lit ''d'') (0, 0, lit ''A'')"
  let ?st = "initial {?p}"
  define st' where "st' = ?st\<lparr>processed_count := processed_count ?st + 1,
                 success_count := success_count ?st + 1,
                 trace := trace ?st @
                   [Print (Processing_location (0 + 1) 2 (processed_count ?st + 1) 2 (lit ''A'') 0 0),
                    Print (Already_exists (filename_of demo_env (lit ''Sea'') (0, 0, lit ''A'')))]\<rparr>"
  have in_st: "?p \<in> existing ?st" by (simp add: initial_def)
  with skip_existing_file [where e = demo_env and sc = "lit ''Sea''" and dir = "lit ''d''" and lat = 0
      and lon = 0 and name = "lit ''A''" and st = ?st and tot = 2 and n = 2 and i = 0]
  have pl: "process_location demo_env 2 (lit ''Sea'') (lit ''d'') 2 0 (0, 0, lit ''A'') ?st = Inr st'"
    unfolding st'_def by blast
  have "n_posts [Print (Processing_location (0 + 1) 2 (processed_count ?st + 1) 2 (lit ''A'') 0 0),
      Print (Already_exists (filename_of demo_env (lit ''Sea'') (0, 0, lit ''A'')))] = 0"
    by (simp add: n_posts_def)
  then have "processed_count st' = processed_count ?st + 1"
    "success_count st' = success_count ?st + 1" "failed_count st' = failed_count ?st"
    "existing st' = existing ?st" "n_posts (trace st') = n_posts (trace ?st)"
    by (simp_all add: st'_def)
  with in_st pl show "\<exists>st st'. ?p \<in> existing st \<and>
      process_location demo_env 2 (lit ''Sea'') (lit ''d'') 2 0 (0, 0, lit ''A'') st = Inr st' \<and>
      processed_count st' = processed_count st + 1 \<and>
      success_count st' = success_count st + 1 \<and> failed_count st' = failed_count st \<and>
      existing st' = existing st \<and> n_posts (trace st') = n_posts (trace st)"
    by blast
next
  let ?B = "lit ''appdata/map/osm/Sea/Sea_B_0.0000_1.0000.osm''"
  obtain st1 where 1: "main saving_env demo_scenes {} = Inr st1"
    using main_returns [OF demo_makedirs(2)] by blast
  obtain st2 where 2: "main saving_env demo_scenes (existing st1) = Inr st2"
    using main_returns [OF demo_makedirs(2)] by blast
  have d: "distinct (output_paths saving_env demo_scenes)"
    by (simp add: saving_paths demo_distinct)
  have r: "\<forall>j. respond saving_env j = Saved"
    by (simp add: saving_env_def)
  have "\<forall>p \<in> set (output_paths saving_env demo_scenes). Write_file p \<in> set (trace st1)"
    using 1 d _ r by (rule main_written) simp
  then have w: "Write_file ?B \<in> set (trace st1)"
    by (simp add: saving_paths demo_paths)
  with skip_existing_file [where e = saving_env and scenes = demo_scenes and E = "{}" and ?st1.0 = st1
      and e' = saving_env and ?st2.0 = st2 and p = ?B] 1 2
  have "\<forall>b. Post ?B b \<notin> set (trace st2)" by blast
  with 1 2 w show "\<exists>st1 st2. main saving_env demo_scenes {} = Inr st1 \<and>
      main saving_env demo_scenes (existing st1) = Inr st2 \<and>
      Write_file ?B \<in> set (trace st1) \<and> (\<forall>b. Post ?B b \<notin> set (trace st2))"
    by blast
qed

text \<open>
  Claim C3. No answer to a request and no failure to open or write the file aborts the
  batch. \<open>process_location\<close> returns normally from every state, whatever the network
  answers. When the directories can be created, the run returns normally for every
  sequence of answers; every location of the catalog was processed, each one either
  skipped or asked for with one request; \<open>failed_count\<close> is exactly the number of
  requests that did not end with a saved file; and the run ends with the summary that
  prints this \<open>failed_count\<close>.
\<close>

theorem failure_isolation:
  "(\<exists>st'. process_location e tot sc dir n i loc st0 = Inr st') \<and>
   ((\<forall>d. makedirs_ok e d) \<longrightarrow>
      (\<exists>st. main e scenes E = Inr st \<and>
         processed_count st = total_locations scenes \<and>
         n_posts (trace st) + n_skips (trace st) = total_locations scenes \<and>
         failed_count st = length (failed_requests e (n_posts (trace st))) \<and>
         (\<exists>pre. trace st = pre @
            [Print Summary_header, Print (Total_attempted (processed_count st)),
             Print (Succeeded (success_count st)), Print (Failed_downloads (failed_count st)),
             Print (Data_saved_under OUTPUT_BASE_DIR), Print Finished])))"
proof (intro conjI impI)
  show "\<exists>st'. process_location e tot sc dir n i loc st0 = Inr st'"
    by (rule process_location_returns)
next
  assume "\<forall>d. makedirs_ok e d"
  then obtain st where st: "main e scenes E = Inr st"
    using main_returns by blast
  from main_counted [OF st] have "counted e st" and "processed_count st = total_locations scenes" .
  moreover from main_summary [OF st] obtain pre where "trace st = pre @ summary st" ..
  ultimately show "\<exists>st. main e scenes E = Inr st \<and>
         processed_count st = total_locations scenes \<and>
         n_posts (trace st) + n_skips (trace st) = total_locations scenes \<and>
         failed_count st = length (failed_requests e (n_posts (trace st))) \<and>
         (\<exists>pre. trace st = pre @
            [Print Summary_header, Print (Total_attempted (processed_count st)),
             Print (Succeeded (success_count st)), Print (Failed_downloads (failed_count st)),
             Print (Data_saved_under OUTPUT_BASE_DIR), Print Finished])"
    using st by (auto simp add: counted_def summary_def)
qed

text \<open>
  On the small catalog the first request times out and the second is saved: the run
  returns, both locations were processed with one request each, and one failure is
  counted.
\<close>

theorem failure_isolation_witness:
  "(\<forall>d. makedirs_ok demo_env d) \<and> respond demo_env 0 = Timeout \<and>
   (\<exists>st. main demo_env demo_scenes {} = Inr st \<and> processed_count st = 2 \<and>
      n_posts (trace st) = 2 \<and> failed_count st = 1 \<and> success_count st = 1)"
proof -
  from failure_isolation [where e = demo_env and scenes = demo_scenes and E = "{}"] demo_makedirs(1)
  obtain st where st: "main demo_env demo_scenes {} = Inr st"
    and p: "processed_count st = total_locations demo_scenes"
    and f: "failed_count st = length (failed_requests demo_env (n_posts (trace st)))"
    by blast
  have "drilled (total_locations demo_scenes) st"
    using st demo_distinct by (rule main_drilled) simp
  with p have n: "n_posts (trace st) = 2" by (simp add: drilled_def demo_total)
  with f have f1: "failed_count st = 1" by (simp add: demo_failed)
  from main_counted(1) [OF st] p f1 have "success_count st = 1"
    by (simp add: counted_def demo_total)
  with st p n f1 demo_makedirs(1) show ?thesis
    by (auto simp add: demo_total demo_env_def)
qed

text \<open>
  Claim C5. When a request is sent for a location, the events of that iteration are those
  of the request followed by the pause of \<open>API_DELAY\<close> seconds, unless the location is the
  last of the whole catalog (\<open>processed_count\<close> has reached \<open>total_locations\<close>), in which
  case nothing follows. In a run of a non-empty catalog in which no location is skipped,
  the number of requests is the number of locations and the number of pauses is one less.
  No location is skipped when no output path exists at the start and the output paths of
  the catalog are pairwise distinct, as those of the program's catalog are. Every pause of
  a run is of \<open>API_DELAY\<close> seconds.
\<close>

theorem inter_request_delay:
  "(output_path_of e sc dir loc \<notin> existing st0 \<longrightarrow>
      (\<exists>st' es. process_location e tot sc dir n i loc st0 = Inr st' \<and>
         trace st' = trace st0 @ es @
           (if processed_count st0 + 1 < tot then [Print (Waiting API_DELAY), Sleep API_DELAY]
            else []) \<and>
         n_posts es = 1 \<and> n_sleeps es = 0)) \<and>
   (main e scenes E = Inr st \<and> n_skips (trace st) = 0 \<and> 0 < total_locations scenes \<longrightarrow>
      n_posts (trace st) = total_locations scenes \<and>
      n_sleeps (trace st) + 1 = total_locations scenes) \<and>
   (main e scenes E = Inr st \<and> distinct (output_paths e scenes) \<and>
      (\<forall>p \<in> set (output_paths e scenes). p \<notin> E) \<longrightarrow> n_skips (trace st) = 0) \<and>
   (main e scenes E = Inr st \<longrightarrow> (\<forall>x. Sleep x \<in> set (trace st) \<longrightarrow> x = API_DELAY))"
proof (intro conjI impI)
  assume "output_path_of e sc dir loc \<notin> existing st0"
  then show "\<exists>st' es. process_location e tot sc dir n i loc st0 = Inr st' \<and>
         trace st' = trace st0 @ es @
           (if processed_count st0 + 1 < tot then [Print (Waiting API_DELAY), Sleep API_DELAY]
            else []) \<and>
         n_posts es = 1 \<and> n_sleeps es = 0"
    by (rule process_location_pause)
next
  assume a: "main e scenes E = Inr st \<and> n_skips (trace st) = 0 \<and> 0 < total_locations scenes"
  then have st: "main e scenes E = Inr st" by simp
  from main_tidy [OF st] a have d: "drilled (total_locations scenes) st"
    by (simp add: tidy_def)
  from main_counted(2) [OF st] d a
  show "n_posts (trace st) = total_locations scenes"
    and "n_sleeps (trace st) + 1 = total_locations scenes"
    by (simp_all add: drilled_def)
next
  assume a: "main e scenes E = Inr st \<and> distinct (output_paths e scenes) \<and>
      (\<forall>p \<in> set (output_paths e scenes). p \<notin> E)"
  then have st: "main e scenes E = Inr st" by simp
  from a have "distinct (output_paths e scenes)"
    and "\<forall>p \<in> set (output_paths e scenes). p \<notin> E"
    by simp_all
  with st have "drilled (total_locations scenes) st"
    by (rule main_drilled)
  with main_counted [OF st] show "n_skips (trace st) = 0"
    by (simp add: drilled_def counted_def)
next
  assume st: "main e scenes E = Inr st"
  from main_honours [OF st] show "\<forall>x. Sleep x \<in> set (trace st) \<longrightarrow> x = API_DELAY"
    by (simp add: honours_def)
qed

text \<open>
  On the small catalog, started with no file: the first location is followed by the pause,
  and the whole run sends two requests and pauses once, for 15 seconds.
\<close>

theorem inter_request_delay_witness:
  "(\<exists>st' es. process_location demo_env 2 (lit ''Sea'') (lit ''d'') 2 0 (0, 0, lit ''A'') (initial {}) =
        Inr st' \<and>
      trace st' = trace (initial {}) @ es @ [Print (Waiting 15), Sleep 15] \<and> n_posts es = 1) \<and>
   distinct (output_paths demo_env demo_scenes) \<and> 0 < total_locations demo_scenes \<and>
   (\<exists>st. main demo_env demo_scenes {} = Inr st \<and> n_skips (trace st) = 0 \<and>
      n_posts (trace st) = 2 \<and> n_sleeps (trace st) = 1 \<and>
      list_all (\<lambda>ev. is_sleep ev = (ev = Sleep 15)) (trace st))"
proof (intro conjI)
  have "output_path_of demo_env (lit ''Sea'') (lit ''d'') (0, 0, lit ''A'') \<notin> existing (initial {})"
    by (simp add: initial_def)
  with inter_request_delay [where e = demo_env and sc = "lit ''Sea''" and dir = "lit ''d''"
      and loc = "(0, 0, lit ''A'')" and ?st0.0 = "initial {}" and tot = 2 and n = 2 and i = 0]
  obtain st' es where "process_location demo_env 2 (lit ''Sea'') (lit ''d'') 2 0 (0, 0, lit ''A'')
        (initial {}) = Inr st'"
    and "trace st' = trace (initial {}) @ es @
           (if processed_count (initial {}) + 1 < 2 then [Print (Waiting API_DELAY), Sleep API_DELAY]
            else [])"
    and "n_posts es = 1"
    by blast
  then show "\<exists>st' es. process_location demo_env 2 (lit ''Sea'') (lit ''d'') 2 0 (0, 0, lit ''A'')
        (initial {}) = Inr st' \<and>
      trace st' = trace (initial {}) @ es @ [Print (Waiting 15), Sleep 15] \<and> n_posts es = 1"
    by (auto simp add: initial_def API_DELAY_def)
next
  show "distinct (output_paths demo_env demo_scenes)" by (rule demo_distinct)
next
  show "0 < total_locations demo_scenes" by (simp add: demo_total)
next
  obtain st where st: "main demo_env demo_scenes {} = Inr st"
    using main_returns [OF demo_makedirs(1)] by blast
  note delay = inter_request_delay [where e = demo_env and scenes = demo_scenes and E = "{}" and st = st]
  from delay st demo_distinct have k: "n_skips (trace st) = 0" by simp
  with delay st have c: "n_posts (trace st) = 2" "n_sleeps (trace st) + 1 = 2"
    by (simp_all add: demo_total)
  from delay st have "\<forall>x. Sleep x \<in> set (trace st) \<longrightarrow> x = API_DELAY" by blast
  then have "list_all (\<lambda>ev. is_sleep ev = (ev = Sleep 15)) (trace st)"
    unfolding list_all_iff
  proof (intro ballI)
    fix ev assume s: "\<forall>x. Sleep x \<in> set (trace st) \<longrightarrow> x = API_DELAY" and ev: "ev \<in> set (trace st)"
    show "is_sleep ev = (ev = Sleep 15)"
    proof (cases ev)
      case (Sleep x)
      with s ev show ?thesis by (auto simp add: API_DELAY_def)
    qed simp_all
  qed
  with st k c show "\<exists>st. main demo_env demo_scenes {} = Inr st \<and> n_skips (trace st) = 0 \<and>
      n_posts (trace st) = 2 \<and> n_sleeps (trace st) = 1 \<and>
      list_all (\<lambda>ev. is_sleep ev = (ev = Sleep 15)) (trace st)"
    by auto
qed

text \<open>
  Claim C9. The main block starts with the three counters at 0, and every iteration of
  the inner loop that starts with \<open>processed_count = success_count + failed_count\<close> ends
  with it; an iteration that finds the file existing adds the location to
  \<open>success_count\<close>. At the end of a run the equation holds and the summary prints the
  three counters.
\<close>

theorem counters_invariant:
  "(processed_count st0 = success_count st0 + failed_count st0 \<and>
      process_location e tot sc dir n i loc st0 = Inr st' \<longrightarrow>
      processed_count st' = success_count st' + failed_count st' \<and>
      processed_count st' = processed_count st0 + 1) \<and>
   (output_path_of e sc dir loc \<in> existing st0 \<and>
      process_location e tot sc dir n i loc st0 = Inr st' \<longrightarrow>
      success_count st' = success_count st0 + 1 \<and> failed_count st' = failed_count st0) \<and>
   (main e scenes E = Inr st \<longrightarrow>
      processed_count st = success_count st + failed_count st \<and>
      (\<exists>pre. trace st = pre @
         [Print Summary_header, Print (Total_attempted (processed_count st)),
          Print (Succeeded (success_count st)), Print (Failed_downloads (failed_count st)),
          Print (Data_saved_under OUTPUT_BASE_DIR), Print Finished]))"
proof (intro conjI impI)
  assume a: "processed_count st0 = success_count st0 + failed_count st0 \<and>
      process_location e tot sc dir n i loc st0 = Inr st'"
  then have pl: "process_location e tot sc dir n i loc st0 = Inr st'" by simp
  from process_location_tally(1,2) [OF pl] a
  show "processed_count st' = success_count st' + failed_count st'"
    and "processed_count st' = processed_count st0 + 1"
    by simp_all
next
  assume a: "output_path_of e sc dir loc \<in> existing st0 \<and>
      process_location e tot sc dir n i loc st0 = Inr st'"
  then have ex: "output_path_of e sc dir loc \<in> existing st0"
    and pl: "process_location e tot sc dir n i loc st0 = Inr st'"
    by simp_all
  from process_location_tally(3) [OF pl ex]
  have "success_count st' = success_count st0 + 1 \<and> failed_count st' = failed_count st0" .
  then show "success_count st' = success_count st0 + 1" and "failed_count st' = failed_count st0"
    by simp_all
next
  assume st: "main e scenes E = Inr st"
  from main_counted(1) [OF st] show "processed_count st = success_count st + failed_count st"
    by (simp add: counted_def)
  from main_summary [OF st] show "\<exists>pre. trace st = pre @
         [Print Summary_header, Print (Total_attempted (processed_count st)),
          Print (Succeeded (success_count st)), Print (Failed_downloads (failed_count st)),
          Print (Data_saved_under OUTPUT_BASE_DIR), Print Finished]"
    by (simp add: summary_def)
qed

theorem counters_invariant_witness:
  "(\<exists>st'. process_location demo_env 2 (lit ''Sea'') (lit ''d'') 2 0 (0, 0, lit ''A'') (initial {}) =
        Inr st' \<and>
      processed_count st' = 1 \<and> success_count st' + failed_count st' = 1) \<and>
   (\<exists>st st'. output_path_of demo_env (lit ''Sea'') (lit ''d'') (0, 0, lit ''A'') \<in> existing st \<and>
      process_location demo_env 2 (lit ''Sea'') (lit ''d'') 2 0 (0, 0, lit ''A'') st = Inr st' \<and>
      success_count st' = 1 \<and> failed_count st' = 0) \<and>
   (\<exists>st. main demo_env demo_scenes {} = Inr st \<and> processed_count st = 2 \<and>
      success_count st + failed_count st = 2 \<and>
      (\<exists>pre. trace st = pre @
         [Print Summary_header, Print (Total_attempted 2),
          Print (Succeeded (success_count st)), Print (Failed_downloads (failed_count st)),
          Print (Data_saved_under OUTPUT_BASE_DIR), Print Finished]))"
proof (intro conjI)
  obtain st' where pl: "process_location demo_env 2 (lit ''Sea'') (lit ''d'') 2 0 (0, 0, lit ''A'')
      (initial {}) = Inr st'"
    using process_location_returns by blast
  have "processed_count (initial {}) = success_count (initial {}) + failed_count (initial {})"
    by (simp add: initial_def)
  with counters_invariant [where ?st0.0 = "initial {}" and e = demo_env and tot = 2
      and sc = "lit ''Sea''" and dir = "lit ''d''" and n = 2 and i = 0
      and loc = "(0, 0, lit ''A'')" and st' = st'] pl
  have "processed_count st' = success_count st' + failed_count st'"
    and "processed_count st' = processed_count (initial {}) + 1"
    by blast+
  with pl show "\<exists>st'. process_location demo_env 2 (lit ''Sea'') (lit ''d'') 2 0 (0, 0, lit ''A'')
      (initial {}) = Inr st' \<and> processed_count st' = 1 \<and> success_count st' + failed_count st' = 1"
    by (auto simp add: initial_def)
next
  let ?p = "output_path_of demo_env (lit ''Sea'') (lit ''d'') (0, 0, lit ''A'')"
  obtain st' where pl: "process_location demo_env 2 (lit ''Sea'') (lit ''d'') 2 0 (0, 0, lit ''A'')
      (initial {?p}) = Inr st'"
    using process_location_returns by blast
  have in_st: "?p \<in> existing (initial {?p})" by (simp add: initial_def)
  with counters_invariant [where ?st0.0 = "initial {?p}" and e = demo_env and tot = 2
      and sc = "lit ''Sea''" and dir = "lit ''d''" and n = 2 and i = 0
      and loc = "(0, 0, lit ''A'')" and st' = st'] pl
  have "success_count st' = success_count (initial {?p}) + 1"
    and "failed_count st' = failed_count (initial {?p})"
    by blast+
  then have "success_count st' = 1" "failed_count st' = 0" by (simp_all add: initial_def)
  with pl in_st show "\<exists>st st'. ?p \<in> existing st \<and>
      process_location demo_env 2 (lit ''Sea'') (lit ''d'') 2 0 (0, 0, lit ''A'') st = Inr st' \<and>
      success_count st' = 1 \<and> failed_count st' = 0"
    by blast
next
  obtain st where st: "main demo_env demo_scenes {} = Inr st"
    using main_returns [OF demo_makedirs(1)] by blast
  from counters_invariant [where e = demo_env and scenes = demo_scenes and E = "{}" and st = st] st
  have eq: "processed_count st = success_count st + failed_count st"
    and "\<exists>pre. trace st = pre @
         [Print Summary_header, Print (Total_attempted (processed_count st)),
          Print (Succeeded (success_count st)), Print (Failed_downloads (failed_count st)),
          Print (Data_saved_under OUTPUT_BASE_DIR), Print Finished]"
    by blast+
  moreover from main_counted(2) [OF st] have "processed_count st = 2" by (simp add: demo_total)
  ultimately show "\<exists>st. main demo_env demo_scenes {} = Inr st \<and> processed_count st = 2 \<and>
      success_count st + failed_count st = 2 \<and>
      (\<exists>pre. trace st = pre @
         [Print Summary_header, Print (Total_attempted 2),
          Print (Succeeded (success_count st)), Print (Failed_downloads (failed_count st)),
          Print (Data_saved_under OUTPUT_BASE_DIR), Print Finished])"
    using st by auto
qed


end
